theory Spec2Isabelle
  imports Complex_Main
begin

section \<open>Outcomes of Python and NumPy operations\<close>

text \<open>
  The solver is the class \<open>DirichletSystem\<close> of the two notebooks
  \<open>2d free\<close> and \<open>3d columb\<close>. NumPy's float64 arithmetic is idealised as
  exact arithmetic on \<open>real\<close>. An operation whose float64 result would be
  \<open>inf\<close> or \<open>NaN\<close> (a division by zero, the square root of a negative number)
  does not raise in NumPy; here it is the outcome \<open>NonFinite\<close>, since no real
  number stands for such a value. \<open>ShapeMismatch\<close> is the outcome of \<open>solve\<close>
  on arrays whose shapes differ from the grid shape: NumPy's broadcasting of
  such operands is not part of this development.
\<close>

datatype error =
  ZeroDivisionError | ValueError | IndexError | AttributeError | NonFinite | ShapeMismatch

definition bind_res :: "error + 'a \<Rightarrow> ('a \<Rightarrow> error + 'b) \<Rightarrow> error + 'b" where
  "bind_res r f = (case r of Inl e \<Rightarrow> Inl e | Inr x \<Rightarrow> f x)"

text \<open>Python's \<open>int(x)\<close> on a float truncates towards zero.\<close>

definition py_int :: "real \<Rightarrow> int" where
  "py_int x = (if 0 \<le> x then \<lfloor>x\<rfloor> else \<lceil>x\<rceil>)"

section \<open>Dense arrays\<close>

text \<open>
  An n-dimensional array is its shape together with its values at the index
  tuples; only the values at index tuples inside the shape belong to the array.
\<close>

record ndarray =
  shape :: "nat list"
  vals :: "nat list \<Rightarrow> real"

fun indices :: "nat list \<Rightarrow> nat list list" where
  "indices [] = [[]]"
| "indices (l # ls) = concat (map (\<lambda>k. map ((#) k) (indices ls)) [0..<l])"

definition np_sum :: "ndarray \<Rightarrow> real" where
  "np_sum a = sum_list (map (vals a) (indices (shape a)))"

definition np_zeros :: "nat list \<Rightarrow> ndarray" where
  "np_zeros shp = \<lparr>shape = shp, vals = (\<lambda>c. 0)\<rparr>"

text \<open>Elementwise operations on arrays of one shape, and operations with a scalar.\<close>

definition ew :: "(real \<Rightarrow> real \<Rightarrow> real) \<Rightarrow> ndarray \<Rightarrow> ndarray \<Rightarrow> ndarray" where
  "ew f a b = \<lparr>shape = shape a, vals = (\<lambda>c. f (vals a c) (vals b c))\<rparr>"

definition mul :: "ndarray \<Rightarrow> ndarray \<Rightarrow> ndarray" where
  "mul a b = ew (*) a b"

definition add :: "ndarray \<Rightarrow> ndarray \<Rightarrow> ndarray" where
  "add a b = ew (+) a b"

definition sub :: "ndarray \<Rightarrow> ndarray \<Rightarrow> ndarray" where
  "sub a b = ew (-) a b"

definition scale :: "real \<Rightarrow> ndarray \<Rightarrow> ndarray" where
  "scale k a = a\<lparr>vals := (\<lambda>c. k * vals a c)\<rparr>"

text \<open>
  NumPy accepts the index \<open>k\<close> on an axis of extent \<open>n\<close> when \<open>-n \<le> k < n\<close>;
  a negative index counts from the end.
\<close>

definition norm_index :: "nat \<Rightarrow> int \<Rightarrow> nat option" where
  "norm_index n k =
     (if 0 \<le> k \<and> k < int n then Some (nat k)
      else if - int n \<le> k \<and> k < 0 then Some (nat (int n + k))
      else None)"

text \<open>
  \<open>a[ind] = v\<close> for \<open>ind = tuple([k if i == j else sx for j in range(nd)])\<close>:
  the hyperplane at index \<open>k\<close> of axis \<open>i\<close> is overwritten.
\<close>

definition set_plane :: "nat \<Rightarrow> ndarray \<Rightarrow> nat \<Rightarrow> int \<Rightarrow> real \<Rightarrow> error + ndarray" where
  "set_plane nd a i k v =
     (if length (shape a) < nd then Inl IndexError
      else case norm_index (shape a ! i) k of
             None \<Rightarrow> Inl IndexError
           | Some k' \<Rightarrow> Inr (a\<lparr>vals := (\<lambda>c. if c ! i = k' then v else vals a c)\<rparr>))"

section \<open>The grid\<close>

record boundary =
  start :: real
  stop :: real
  step :: real

text \<open>\<open>int((dom.end - dom.start) / dom.step) + 1\<close>, on Python floats.\<close>

definition axis_count :: "boundary \<Rightarrow> error + int" where
  "axis_count bd =
     (if step bd = 0 then Inl ZeroDivisionError
      else Inr (py_int ((stop bd - start bd) / step bd) + 1))"

text \<open>
  \<open>np.linspace(a, b, num)\<close>: \<open>arange(0, num) * step + a\<close> with
  \<open>step = (b - a) / (num - 1)\<close>, the last sample overwritten with \<open>b\<close> when
  \<open>num > 1\<close>; a negative \<open>num\<close> raises.
\<close>

definition linspace :: "real \<Rightarrow> real \<Rightarrow> int \<Rightarrow> error + real list" where
  "linspace a b num =
     (if num < 0 then Inl ValueError
      else Inr (map (\<lambda>k. if 1 < num \<and> int k = num - 1 then b
                          else a + real k * (if 0 < num - 1 then (b - a) / real_of_int (num - 1) else b - a))
                    [0..<nat num]))"

fun axis_spaces :: "boundary list \<Rightarrow> error + real list list" where
  "axis_spaces [] = Inr []"
| "axis_spaces (bd # doms) =
     bind_res (axis_count bd) (\<lambda>n.
     bind_res (linspace (start bd) (stop bd) n) (\<lambda>xs.
     bind_res (axis_spaces doms) (\<lambda>xss. Inr (xs # xss))))"

text \<open>
  \<open>_init_mesh\<close>: the coordinate sequences, the zero solution array, its shape
  and the number of axes. \<open>space_meshs[0]\<close> raises when there is no axis.
\<close>

definition init_mesh :: "boundary list \<Rightarrow> error + (real list list \<times> ndarray \<times> nat list \<times> nat)" where
  "init_mesh doms =
     bind_res (axis_spaces doms) (\<lambda>sp.
       if sp = [] then Inl IndexError
       else let shp = map length sp in Inr (sp, np_zeros shp, shp, length shp))"

section \<open>The solver state\<close>

text \<open>
  The two notebooks hold the same class but for \<open>normalize\<close>, which omits the
  volume element in \<open>2d free\<close> and includes it in \<open>3d columb\<close>, and for the
  snapshot of the solution that \<open>3d columb\<close> saves to disk every hundred
  iterations, which changes no state and is left out.
\<close>

datatype notebook = Free2D | Columb3D

record system =
  nb :: notebook
  pbc :: bool
  priors :: "ndarray list"
  pot :: "real list \<Rightarrow> real"
  time_dom :: boundary
  spat_dom :: "boundary list"
  vol :: real
  time_len :: int
  spaces :: "real list list"
  sol_mesh :: ndarray
  sol_shape :: "nat list"
  ndim :: nat
  bd_cond :: "string option"
  counter :: nat
  stop_tol :: "real option"
  max_iter :: "int option"
  logs :: "real list"
  pot_grid :: "ndarray option"
  energy_series :: "real list"

text \<open>\<open>__init__\<close>; the attribute \<open>pot_grid\<close> does not exist before \<open>_initialize\<close>.\<close>

definition init ::
  "notebook \<Rightarrow> (real list \<Rightarrow> real) \<Rightarrow> boundary \<Rightarrow> boundary list \<Rightarrow> string option \<Rightarrow>
   int option \<Rightarrow> real option \<Rightarrow> ndarray list option \<Rightarrow> error + system" where
  "init nbk p tdom sdoms bc mi tol prior_vecs =
     bind_res (axis_count tdom) (\<lambda>tl.
     bind_res (init_mesh sdoms) (\<lambda>(sp, mesh, shp, nd).
       Inr \<lparr>nb = nbk, pbc = False,
            priors = (case prior_vecs of None \<Rightarrow> [] | Some vs \<Rightarrow> vs),
            pot = p, time_dom = tdom, spat_dom = sdoms,
            vol = prod_list (map step sdoms), time_len = tl,
            spaces = sp, sol_mesh = mesh, sol_shape = shp, ndim = nd,
            bd_cond = bc, counter = 0, stop_tol = tol, max_iter = mi,
            logs = [], pot_grid = None, energy_series = []\<rparr>))"

text \<open>
  \<open>normalize\<close>: \<open>psi * (1.0 / nn)\<close> with \<open>nn = sqrt(sum(psi * psi))\<close> in
  \<open>2d free\<close> and \<open>nn = sqrt(sum(psi * psi) * vol)\<close> in \<open>3d columb\<close>.
\<close>

definition normalize :: "notebook \<Rightarrow> real \<Rightarrow> ndarray \<Rightarrow> error + ndarray" where
  "normalize nbk v psi =
     (let q = (case nbk of Free2D \<Rightarrow> np_sum (mul psi psi)
                         | Columb3D \<Rightarrow> np_sum (mul psi psi) * v)
      in if q \<le> 0 then Inl NonFinite else Inr (scale (1 / sqrt q) psi))"

text \<open>\<open>_apply_boundary\<close>: the loop over \<open>enumerate(self.sol_shape)\<close>.\<close>

fun boundary_axes :: "nat \<Rightarrow> ndarray \<Rightarrow> (nat \<times> nat) list \<Rightarrow> error + ndarray" where
  "boundary_axes nd a [] = Inr a"
| "boundary_axes nd a ((i, l) # rest) =
     bind_res (set_plane nd a i 0 0) (\<lambda>a1.
     bind_res (set_plane nd a1 i (int l - 1) 0) (\<lambda>a2.
     boundary_axes nd a2 rest))"

definition apply_boundary :: "system \<Rightarrow> error + system" where
  "apply_boundary s =
     (if bd_cond s = None \<and> pbc s = False
      then bind_res (boundary_axes (ndim s) (sol_mesh s) (enumerate 0 (sol_shape s)))
             (\<lambda>a. Inr (s\<lparr>sol_mesh := a\<rparr>))
      else Inr s)"

text \<open>\<open>_initialize\<close> and \<open>set_psi0_by_grid\<close>.\<close>

definition initialize :: "ndarray \<Rightarrow> system \<Rightarrow> error + system" where
  "initialize psi0_grid s =
     bind_res (apply_boundary (s\<lparr>sol_mesh := psi0_grid\<rparr>)) (\<lambda>s1.
       Inr (s1\<lparr>pot_grid :=
                 Some \<lparr>shape = sol_shape s1,
                       vals = (\<lambda>c. pot s1 (map2 (\<lambda>xs k. xs ! k) (spaces s1) c))\<rparr>\<rparr>))"

definition set_psi0_by_grid :: "ndarray \<Rightarrow> system \<Rightarrow> error + system" where
  "set_psi0_by_grid psi0_grid s = initialize psi0_grid s"

text \<open>
  \<open>_prepare\<close>: \<open>psi\<close> is the array \<open>self.sol_mesh\<close> itself and \<open>-=\<close> works in
  place, so each prior meets the solution as the earlier priors left it.
\<close>

fun deflate :: "notebook \<Rightarrow> real \<Rightarrow> ndarray \<Rightarrow> ndarray list \<Rightarrow> error + ndarray" where
  "deflate nbk v psi [] = Inr psi"
| "deflate nbk v psi (vec # vecs) =
     bind_res (normalize nbk v vec) (\<lambda>nvec.
       let inner = np_sum (scale v (mul psi nvec))
       in deflate nbk v (sub psi (scale inner vec)) vecs)"

definition prepare :: "system \<Rightarrow> error + system" where
  "prepare s =
     bind_res (deflate (nb s) (vol s) (sol_mesh s) (priors s))
       (\<lambda>a. Inr (s\<lparr>sol_mesh := a\<rparr>))"

section \<open>One iteration of \<open>solve\<close>\<close>

text \<open>
  \<open>beta = 1.0 / (1.0 + 0.5 * dt * pot_grid)\<close> and
  \<open>alpha = (1.0 - 0.5 * dt * pot_grid) * beta\<close>.
\<close>

definition coeff_beta :: "real \<Rightarrow> ndarray \<Rightarrow> error + ndarray" where
  "coeff_beta dt pg =
     (if list_ex (\<lambda>c. 1 + 0.5 * dt * vals pg c = 0) (indices (shape pg)) then Inl NonFinite
      else Inr (pg\<lparr>vals := (\<lambda>c. 1 / (1 + 0.5 * dt * vals pg c))\<rparr>))"

definition coeff_alpha :: "real \<Rightarrow> ndarray \<Rightarrow> ndarray \<Rightarrow> ndarray" where
  "coeff_alpha dt pg beta = mul (pg\<lparr>vals := (\<lambda>c. 1 - 0.5 * dt * vals pg c)\<rparr>) beta"

text \<open>
  Periodic mode, \<open>px[ind2] = px[ind0] + (1/3) * px[ind3] - (1/3) * px[ind1]\<close>
  with the indices \<open>0\<close>, \<open>1\<close>, \<open>-1\<close>, \<open>-2\<close> on axis \<open>i\<close>: the right-hand side is
  evaluated first, then stored in the last hyperplane.
\<close>

definition pbc_extrapolate :: "ndarray \<Rightarrow> nat \<Rightarrow> error + ndarray" where
  "pbc_extrapolate px i =
     (let l = shape px ! i
      in if l < 2 then Inl IndexError
         else Inr (px\<lparr>vals := (\<lambda>c. if c ! i = l - 1
                                     then vals px (c[i := 0]) + (1/3) * vals px (c[i := l - 2])
                                          - (1/3) * vals px (c[i := 1])
                                     else vals px c)\<rparr>))"

text \<open>
  \<open>term = px[ind2] + px[ind3] - 2.0 * px[ind1]\<close> with the slices \<open>0:-2\<close>, \<open>2:\<close>
  and \<open>1:-1\<close> on axis \<open>i\<close>: an array two shorter along that axis.
\<close>

definition axis_term :: "ndarray \<Rightarrow> nat \<Rightarrow> ndarray" where
  "axis_term px i =
     \<lparr>shape = (shape px)[i := shape px ! i - 2],
      vals = (\<lambda>d. vals px d + vals px (d[i := d ! i + 2]) - 2 * vals px (d[i := d ! i + 1]))\<rparr>"

text \<open>
  \<open>px[ind]\<close> for an integer index \<open>k\<close> on axis \<open>i\<close> has that axis removed.
  \<open>term += row\<close> for such a \<open>row\<close> broadcasts it against the trailing axes of
  \<open>term\<close>, and raises when an extent of \<open>row\<close> is neither \<open>1\<close> nor the extent
  of \<open>term\<close> at that place.
\<close>

definition plane :: "ndarray \<Rightarrow> nat \<Rightarrow> nat \<Rightarrow> ndarray" where
  "plane a i k =
     \<lparr>shape = take i (shape a) @ drop (Suc i) (shape a),
      vals = (\<lambda>d. vals a (take i d @ k # drop i d))\<rparr>"

definition iadd_bcast :: "ndarray \<Rightarrow> ndarray \<Rightarrow> error + ndarray" where
  "iadd_bcast t r =
     (if list_all (\<lambda>j. shape r ! j = shape t ! Suc j \<or> shape r ! j = 1) [0..<length (shape r)]
      then Inr (t\<lparr>vals := (\<lambda>c. vals t c
                  + vals r (map (\<lambda>j. if shape r ! j = 1 then 0 else c ! Suc j) [0..<length (shape r)]))\<rparr>)
      else Inl ValueError)"

text \<open>
  Periodic mode: \<open>term += px[ind3]; term += px[ind1]; term -= px[ind0];
  term -= px[ind2]\<close>.
\<close>

definition pbc_wrap :: "ndarray \<Rightarrow> nat \<Rightarrow> ndarray \<Rightarrow> error + ndarray" where
  "pbc_wrap px i term =
     (let l = shape px ! i
      in bind_res (iadd_bcast term (plane px i (l - 2))) (\<lambda>t1.
         bind_res (iadd_bcast t1 (plane px i 1)) (\<lambda>t2.
         bind_res (iadd_bcast t2 (scale (- 1) (plane px i 0))) (\<lambda>t3.
         iadd_bcast t3 (scale (- 1) (plane px i (l - 1)))))))"

text \<open>\<open>kine[ind1] += term\<close> with the slice \<open>1:-1\<close> on axis \<open>i\<close>.\<close>

definition acc_interior :: "ndarray \<Rightarrow> nat \<Rightarrow> ndarray \<Rightarrow> ndarray" where
  "acc_interior kine i term =
     kine\<lparr>vals := (\<lambda>c. if 1 \<le> c ! i \<and> c ! i + 1 < shape kine ! i
                        then vals kine c + vals term (c[i := c ! i - 1])
                        else vals kine c)\<rparr>"

text \<open>The body of \<open>for i in range(self.ndim)\<close>; \<open>px\<close> is the solution array itself.\<close>

definition axis_step :: "system \<Rightarrow> nat \<Rightarrow> ndarray \<Rightarrow> ndarray \<Rightarrow> error + (ndarray \<times> ndarray)" where
  "axis_step s i px0 kine =
     bind_res (if pbc s then pbc_extrapolate px0 i else Inr px0) (\<lambda>px.
     bind_res (if pbc s then pbc_wrap px i (axis_term px i) else Inr (axis_term px i)) (\<lambda>term.
       let h = step (spat_dom s ! i)
       in if h = 0 then Inl NonFinite
          else Inr (px, acc_interior kine i (scale (1 / (2 * h\<^sup>2)) term))))"

fun kinetic :: "system \<Rightarrow> ndarray \<Rightarrow> ndarray \<Rightarrow> nat list \<Rightarrow> error + (ndarray \<times> ndarray)" where
  "kinetic s px kine [] = Inr (px, kine)"
| "kinetic s px kine (i # axes) =
     bind_res (axis_step s i px kine) (\<lambda>(px', kine'). kinetic s px' kine' axes)"

text \<open>
  \<open>energy_before = np.sum(pot_grid * px * px) - (kine * px).sum()\<close>, divided by
  \<open>(px * px).sum()\<close>.
\<close>

definition energy :: "ndarray \<Rightarrow> ndarray \<Rightarrow> ndarray \<Rightarrow> error + real" where
  "energy pg px kine =
     (if np_sum (mul px px) = 0 then Inl NonFinite
      else Inr ((np_sum (mul (mul pg px) px) - np_sum (mul kine px)) / np_sum (mul px px)))"

text \<open>
  The body of \<open>if n + 1 < self.time_len\<close>: the update, the logged norm
  \<open>sqrt(sum(psi * psi) * vol)\<close>, which is \<open>NaN\<close> for a negative volume element,
  and the renormalization.
\<close>

definition update :: "real \<Rightarrow> ndarray \<Rightarrow> ndarray \<Rightarrow> ndarray \<Rightarrow> ndarray \<Rightarrow> ndarray" where
  "update dt alpha beta kine psi = add (mul alpha psi) (mul (scale dt beta) kine)"

definition advance :: "ndarray \<Rightarrow> ndarray \<Rightarrow> ndarray \<Rightarrow> system \<Rightarrow> error + system" where
  "advance alpha beta kine s =
     (let psi = update (step (time_dom s)) alpha beta kine (sol_mesh s);
          nn2 = np_sum (mul psi psi) * vol s
      in if nn2 < 0 then Inl NonFinite
         else bind_res (normalize (nb s) (vol s) psi) (\<lambda>out.
                Inr (s\<lparr>sol_mesh := out, logs := logs s @ [sqrt nn2]\<rparr>)))"

text \<open>
  The test \<open>n > 0 and stop_tol is not None\<close>, then
  \<open>abs(1 - energy_series[n - 1] / energy_before) < stop_tol\<close>. A zero
  \<open>energy_before\<close> makes the quotient \<open>inf\<close> or \<open>NaN\<close>, and the comparison false.
\<close>

definition stop_now :: "real option \<Rightarrow> nat \<Rightarrow> real list \<Rightarrow> real \<Rightarrow> bool" where
  "stop_now tol n es e =
     (case tol of
        None \<Rightarrow> False
      | Some t \<Rightarrow> 0 < n \<and> e \<noteq> 0 \<and> \<bar>1 - es ! (n - 1) / e\<bar> < t)"

text \<open>The body of the loop over \<open>n\<close>; the flag tells whether \<open>break\<close> was reached.\<close>

definition iteration :: "ndarray \<Rightarrow> ndarray \<Rightarrow> ndarray \<Rightarrow> nat \<Rightarrow> system \<Rightarrow> error + (system \<times> bool)" where
  "iteration pg alpha beta n s =
     bind_res (prepare (s\<lparr>counter := n\<rparr>)) (\<lambda>s1.
     bind_res (kinetic s1 (sol_mesh s1) (np_zeros (sol_shape s1)) [0..<ndim s1]) (\<lambda>(px, kine).
     bind_res (energy pg px kine) (\<lambda>e.
       let s2 = s1\<lparr>sol_mesh := px, energy_series := (energy_series s1)[n := e]\<rparr>
       in bind_res (if int n + 1 < time_len s2 then advance alpha beta kine s2 else Inr s2) (\<lambda>s3.
            Inr (s3, stop_now (stop_tol s3) n (energy_series s3) e)))))"

section \<open>The loop of \<open>solve\<close>\<close>

text \<open>\<open>for n in range(n, t_len)\<close> with \<open>k\<close> iterations left.\<close>

fun loop :: "ndarray \<Rightarrow> ndarray \<Rightarrow> ndarray \<Rightarrow> nat \<Rightarrow> nat \<Rightarrow> system \<Rightarrow> error + system" where
  "loop pg alpha beta 0 n s = Inr s"
| "loop pg alpha beta (Suc k) n s =
     bind_res (iteration pg alpha beta n s)
       (\<lambda>(s', brk). if brk then Inr s' else loop pg alpha beta k (Suc n) s')"

definition t_len :: "system \<Rightarrow> int" where
  "t_len s =
     (case max_iter s of
        None \<Rightarrow> time_len s
      | Some m \<Rightarrow> if m < time_len s then m else time_len s)"

text \<open>
  The arrays of a system built by \<open>init\<close> and \<open>set_psi0_by_grid\<close> from arrays of
  the grid shape have that shape; \<open>solve\<close> does not check it.
\<close>

definition conforming :: "system \<Rightarrow> bool" where
  "conforming s =
     (shape (sol_mesh s) = sol_shape s \<and> list_all (\<lambda>v. shape v = sol_shape s) (priors s) \<and>
      (case pot_grid s of None \<Rightarrow> True | Some pg \<Rightarrow> shape pg = sol_shape s) \<and>
      ndim s = length (sol_shape s) \<and> length (spat_dom s) = ndim s)"

definition solve :: "system \<Rightarrow> error + system" where
  "solve s =
     (if time_len s < 0 then Inl ValueError
      else case pot_grid s of
        None \<Rightarrow> Inl AttributeError
      | Some pg \<Rightarrow>
          if \<not> conforming s then Inl ShapeMismatch
          else bind_res (coeff_beta (step (time_dom s)) pg) (\<lambda>beta.
               bind_res (prepare (s\<lparr>energy_series := replicate (nat (time_len s)) 0\<rparr>)) (\<lambda>s1.
                 loop pg (coeff_alpha (step (time_dom s)) pg beta) beta (nat (t_len s1)) 0 s1)))"

section \<open>Notions used by the properties\<close>



text \<open>
  A boundary point of a grid has index \<open>0\<close> or index \<open>extent - 1\<close> along some
  axis.
\<close>

definition on_boundary :: "nat list \<Rightarrow> nat list \<Rightarrow> bool" where
  "on_boundary shp c = list_ex (\<lambda>i. c ! i = 0 \<or> c ! i + 1 = shp ! i) [0..<length shp]"

definition zero_on_boundary :: "nat list \<Rightarrow> ndarray \<Rightarrow> bool" where
  "zero_on_boundary shp a = list_all (\<lambda>c. on_boundary shp c \<longrightarrow> vals a c = 0) (indices shp)"

text \<open>
  Whether the boundary reset of \<open>_apply_boundary\<close>, which indexes the supplied
  field with \<open>0\<close> and with the grid's \<open>extent - 1\<close> on every grid axis, stays
  inside a field of the given shape.
\<close>

definition fits :: "nat list \<Rightarrow> nat list \<Rightarrow> bool" where
  "fits grid shp =
     (length grid \<le> length shp \<and> list_all (\<lambda>i. max 1 (grid ! i) \<le> shp ! i) [0..<length grid])"




section \<open>Sample data\<close>

text \<open>A one-dimensional array holding the given values.\<close>

definition arr1 :: "real list \<Rightarrow> ndarray" where
  "arr1 xs = \<lparr>shape = [length xs], vals = (\<lambda>c. xs ! (c ! 0))\<rparr>"

text \<open>
  A sample run: the zero potential on the three points \<open>0, 0.25, 0.5\<close>, a time
  domain of two steps with \<open>dt = 0.03125\<close>, no stop tolerance, the initial
  field \<open>[1, 4, 1]\<close>. Every intermediate value is a dyadic rational, so the run
  is the same in float64.
\<close>

definition well_x :: boundary where
  "well_x = \<lparr>start = 0, stop = 1/2, step = 1/4\<rparr>"

definition two_steps :: boundary where
  "two_steps = \<lparr>start = 0, stop = 1/32, step = 1/32\<rparr>"

definition well_sys :: "notebook \<Rightarrow> int option \<Rightarrow> system" where
  "well_sys nbk mi = projr (init nbk (\<lambda>xs. 0) two_steps [well_x] None mi None None)"

definition well_run :: "notebook \<Rightarrow> int option \<Rightarrow> error + system" where
  "well_run nbk mi =
     bind_res (init nbk (\<lambda>xs. 0) two_steps [well_x] None mi None None) (\<lambda>s0.
     bind_res (set_psi0_by_grid (arr1 [1, 4, 1]) s0) solve)"

text \<open>
  A two-dimensional array holding the given rows, and a solver of the
  \<open>3d columb\<close> notebook on the square grid of three by three points with
  \<open>dt = 0.015625\<close> and a time domain of two steps.
\<close>

definition arr2 :: "real list list \<Rightarrow> ndarray" where
  "arr2 rows = \<lparr>shape = [length rows, length (hd rows)], vals = (\<lambda>c. rows ! (c ! 0) ! (c ! 1))\<rparr>"

definition short_steps :: boundary where
  "short_steps = \<lparr>start = 0, stop = 1/64, step = 1/64\<rparr>"

definition square_sys :: system where
  "square_sys = projr (init Columb3D (\<lambda>xs. 0) short_steps [well_x, well_x] None None None None)"

definition square_psi0 :: ndarray where
  "square_psi0 = arr2 [[1, 1, 1], [1, 4, 1], [1, 1, 1]]"

text \<open>
  Four points \<open>0, 1, 2, 3\<close> with volume element one, and a solver of the
  \<open>3d columb\<close> notebook on them with one prior state, after the initial field
  has been set.
\<close>

definition unit_x4 :: boundary where
  "unit_x4 = \<lparr>start = 0, stop = 3, step = 1\<rparr>"


text \<open>
  A run on those four points with \<open>dt = 2\<close>, a time domain of three steps, the
  iteration cap \<open>1\<close> and a prior state that is \<open>0.5\<close> everywhere, also on the
  two boundary points.
\<close>

definition three_steps :: boundary where
  "three_steps = \<lparr>start = 0, stop = 4, step = 2\<rparr>"

definition flat_prior_run :: "error + system" where
  "flat_prior_run =
     bind_res (init Free2D (\<lambda>xs. 0) three_steps [unit_x4] None (Some 1) None
                 (Some [arr1 [1/2, 1/2, 1/2, 1/2]])) (\<lambda>s0.
     bind_res (set_psi0_by_grid (arr1 [0, 1, 1, 0]) s0) solve)"

text \<open>
  The sample solver after \<open>set_psi0_by_grid\<close>; the same with the energy series
  allocated as \<open>solve\<close> does, its potential array, its \<open>beta\<close>, and the first
  iteration of its loop.
\<close>

definition well_start :: "notebook \<Rightarrow> int option \<Rightarrow> system" where
  "well_start nbk mi = projr (set_psi0_by_grid (arr1 [1, 4, 1]) (well_sys nbk mi))"

definition well_ready :: system where
  "well_ready = (well_start Free2D None)\<lparr>energy_series := replicate 2 0\<rparr>"

definition well_pg :: ndarray where
  "well_pg = the (pot_grid well_ready)"

definition well_beta :: ndarray where
  "well_beta = projr (coeff_beta (step (time_dom well_ready)) well_pg)"

definition well_first :: "error + system \<times> bool" where
  "well_first =
     iteration well_pg (coeff_alpha (step (time_dom well_ready)) well_pg well_beta) well_beta 0
       well_ready"


text \<open>
  Periodic mode is reached only by setting the attribute \<open>pbc\<close> of a
  constructed solver. A solver on the four points \<open>0, 1, 2, 3\<close> with \<open>dt = 1\<close>,
  a time domain of three steps and the iteration cap \<open>1\<close>, switched to periodic
  mode; its run from the field \<open>[1, 3, -3, 0]\<close>; and the kinetic step of its
  only axis on that field.
\<close>

definition unit_steps :: boundary where
  "unit_steps = \<lparr>start = 0, stop = 2, step = 1\<rparr>"

definition ring_sys :: system where
  "ring_sys =
     (projr (init Free2D (\<lambda>xs. 0) unit_steps [unit_x4] None (Some 1) None None))\<lparr>pbc := True\<rparr>"

definition ring_run :: "error + system" where
  "ring_run = bind_res (set_psi0_by_grid (arr1 [1, 3, - 3, 0]) ring_sys) solve"

definition ring_axis :: "error + ndarray \<times> ndarray" where
  "ring_axis = axis_step ring_sys 0 (arr1 [1, 3, - 3, 0]) (np_zeros [4])"

section \<open>Arrays: basic facts\<close>

lemma shape_ew [simp]: "shape (ew f a b) = shape a"
  by (simp add: ew_def)

lemma vals_ew [simp]: "vals (ew f a b) = (\<lambda>c. f (vals a c) (vals b c))"
  by (simp add: ew_def)

lemma shape_mul [simp]: "shape (mul a b) = shape a"
  and shape_add [simp]: "shape (add a b) = shape a"
  and shape_sub [simp]: "shape (sub a b) = shape a"
  and shape_scale [simp]: "shape (scale k a) = shape a"
  by (simp_all add: mul_def add_def sub_def scale_def)

lemma vals_mul [simp]: "vals (mul a b) = (\<lambda>c. vals a c * vals b c)"
  and vals_add [simp]: "vals (add a b) = (\<lambda>c. vals a c + vals b c)"
  and vals_sub [simp]: "vals (sub a b) = (\<lambda>c. vals a c - vals b c)"
  and vals_scale [simp]: "vals (scale k a) = (\<lambda>c. k * vals a c)"
  by (simp_all add: mul_def add_def sub_def scale_def)


lemma np_sum_scale_mul: "np_sum (mul (scale k a) b) = k * np_sum (mul a b)"
  by (simp add: np_sum_def sum_list_const_mult mult.assoc)

lemma np_sum_mul_scale: "np_sum (mul a (scale k b)) = k * np_sum (mul a b)"
  by (simp add: np_sum_def sum_list_const_mult mult.left_commute)

lemma np_sum_sq_nonneg: "0 \<le> np_sum (mul a a)"
  by (auto simp: np_sum_def intro!: sum_list_nonneg)

lemma sqrt_quarter: "sqrt (1/4) = 1/2"
  by (rule real_sqrt_unique) (simp_all add: power2_eq_square)

text \<open>Unfolding a sample run down to arithmetic.\<close>

lemmas run_simps =
  init_def init_mesh_def axis_count_def py_int_def bind_res_def linspace_def upt_rec
  np_zeros_def set_psi0_by_grid_def initialize_def apply_boundary_def set_plane_def
  norm_index_def arr1_def solve_def conforming_def coeff_beta_def coeff_alpha_def
  prepare_def t_len_def iteration_def axis_step_def axis_term_def acc_interior_def
  energy_def np_sum_def mul_def add_def sub_def scale_def ew_def advance_def update_def
  normalize_def stop_now_def Let_def eval_nat_numeral

section \<open>Reading the definitions\<close>

text \<open>
  Elimination rules: what a successful result of \<open>prepare\<close>, \<open>advance\<close>,
  \<open>iteration\<close>, \<open>loop\<close> and \<open>solve\<close> says about the steps that led to it, and
  which fields of the state they change.
\<close>

lemma bind_res_Inr_iff: "bind_res r f = Inr y \<longleftrightarrow> (\<exists>x. r = Inr x \<and> f x = Inr y)"
  by (cases r) (simp_all add: bind_res_def)

lemma iterationE:
  assumes "iteration pg alpha beta n s = Inr (s', brk)"
  obtains s1 px kine e where
    "prepare (s\<lparr>counter := n\<rparr>) = Inr s1"
    "kinetic s1 (sol_mesh s1) (np_zeros (sol_shape s1)) [0..<ndim s1] = Inr (px, kine)"
    "energy pg px kine = Inr e"
    "(if int n + 1 < time_len s1
      then advance alpha beta kine (s1\<lparr>sol_mesh := px, energy_series := (energy_series s1)[n := e]\<rparr>)
      else Inr (s1\<lparr>sol_mesh := px, energy_series := (energy_series s1)[n := e]\<rparr>)) = Inr s'"
    "brk = stop_now (stop_tol s') n (energy_series s') e"
proof -
  from assms obtain s1 where p: "prepare (s\<lparr>counter := n\<rparr>) = Inr s1"
    and r1: "bind_res (kinetic s1 (sol_mesh s1) (np_zeros (sol_shape s1)) [0..<ndim s1]) (\<lambda>(px, kine).
     bind_res (energy pg px kine) (\<lambda>e.
       let s2 = s1\<lparr>sol_mesh := px, energy_series := (energy_series s1)[n := e]\<rparr>
       in bind_res (if int n + 1 < time_len s2 then advance alpha beta kine s2 else Inr s2) (\<lambda>s3.
            Inr (s3, stop_now (stop_tol s3) n (energy_series s3) e)))) = Inr (s', brk)"
    unfolding iteration_def by (subst (asm) bind_res_Inr_iff) blast
  from r1 obtain pk where k0: "kinetic s1 (sol_mesh s1) (np_zeros (sol_shape s1)) [0..<ndim s1] = Inr pk"
    and r2: "(\<lambda>(px, kine).
     bind_res (energy pg px kine) (\<lambda>e.
       let s2 = s1\<lparr>sol_mesh := px, energy_series := (energy_series s1)[n := e]\<rparr>
       in bind_res (if int n + 1 < time_len s2 then advance alpha beta kine s2 else Inr s2) (\<lambda>s3.
            Inr (s3, stop_now (stop_tol s3) n (energy_series s3) e)))) pk = Inr (s', brk)"
    by (subst (asm) bind_res_Inr_iff) blast
  obtain px kine where pk: "pk = (px, kine)" by (cases pk)
  from r2 pk obtain e where e: "energy pg px kine = Inr e"
    and r3: "bind_res (if int n + 1 < time_len s1
      then advance alpha beta kine (s1\<lparr>sol_mesh := px, energy_series := (energy_series s1)[n := e]\<rparr>)
      else Inr (s1\<lparr>sol_mesh := px, energy_series := (energy_series s1)[n := e]\<rparr>)) (\<lambda>s3.
            Inr (s3, stop_now (stop_tol s3) n (energy_series s3) e)) = Inr (s', brk)"
    by (simp add: bind_res_Inr_iff[of "energy pg px kine"] Let_def) blast
  from r3 have "(if int n + 1 < time_len s1
      then advance alpha beta kine (s1\<lparr>sol_mesh := px, energy_series := (energy_series s1)[n := e]\<rparr>)
      else Inr (s1\<lparr>sol_mesh := px, energy_series := (energy_series s1)[n := e]\<rparr>)) = Inr s'"
    and "brk = stop_now (stop_tol s') n (energy_series s') e"
    by (subst (asm) bind_res_Inr_iff; auto)+
  with p k0 pk e that show ?thesis by blast
qed

lemma prepareE:
  assumes "prepare s = Inr s'"
  obtains a where "deflate (nb s) (vol s) (sol_mesh s) (priors s) = Inr a" "s' = s\<lparr>sol_mesh := a\<rparr>"
  using assms unfolding prepare_def bind_res_Inr_iff by auto

lemma advanceE:
  assumes "advance alpha beta kine s = Inr s'"
  obtains out where
    "normalize (nb s) (vol s) (update (step (time_dom s)) alpha beta kine (sol_mesh s)) = Inr out"
    "s' = s\<lparr>sol_mesh := out,
             logs := logs s @ [sqrt (np_sum (mul (update (step (time_dom s)) alpha beta kine (sol_mesh s))
                                              (update (step (time_dom s)) alpha beta kine (sol_mesh s))) * vol s)]\<rparr>"
proof -
  from assms have "bind_res (normalize (nb s) (vol s) (update (step (time_dom s)) alpha beta kine (sol_mesh s)))
     (\<lambda>out. Inr (s\<lparr>sol_mesh := out,
             logs := logs s @ [sqrt (np_sum (mul (update (step (time_dom s)) alpha beta kine (sol_mesh s))
                                              (update (step (time_dom s)) alpha beta kine (sol_mesh s))) * vol s)]\<rparr>)) = Inr s'"
    unfolding advance_def Let_def by (simp split: if_splits)
  then show ?thesis
    unfolding bind_res_Inr_iff using that by auto
qed

lemma iteration_frameE:
  assumes "iteration pg alpha beta n s = Inr (s', brk)"
  obtains a e l where
    "s' = s\<lparr>counter := n, sol_mesh := a, energy_series := (energy_series s)[n := e], logs := l\<rparr>"
proof -
  from assms obtain s1 px kine e where
    p: "prepare (s\<lparr>counter := n\<rparr>) = Inr s1"
    and s3: "(if int n + 1 < time_len s1
      then advance alpha beta kine (s1\<lparr>sol_mesh := px, energy_series := (energy_series s1)[n := e]\<rparr>)
      else Inr (s1\<lparr>sol_mesh := px, energy_series := (energy_series s1)[n := e]\<rparr>)) = Inr s'"
    by (rule iterationE)
  from p obtain a where s1: "s1 = s\<lparr>counter := n, sol_mesh := a\<rparr>"
    by (rule prepareE) simp
  show ?thesis
  proof (cases "int n + 1 < time_len s1")
    case True
    with s3 have "advance alpha beta kine (s1\<lparr>sol_mesh := px, energy_series := (energy_series s1)[n := e]\<rparr>) = Inr s'"
      by simp
    then obtain out l where
      "s' = s1\<lparr>sol_mesh := px, energy_series := (energy_series s1)[n := e]\<rparr>\<lparr>sol_mesh := out, logs := l\<rparr>"
      by (rule advanceE)
    then have "s' = s\<lparr>counter := n, sol_mesh := out, energy_series := (energy_series s)[n := e], logs := l\<rparr>"
      unfolding s1 by simp
    then show ?thesis by (rule that)
  next
    case False
    with s3 have "s' = s1\<lparr>sol_mesh := px, energy_series := (energy_series s1)[n := e]\<rparr>"
      by simp
    then have "s' = s\<lparr>counter := n, sol_mesh := px, energy_series := (energy_series s)[n := e], logs := logs s\<rparr>"
      unfolding s1 by simp
    then show ?thesis by (rule that)
  qed
qed

lemma loop_SucE:
  assumes "loop pg alpha beta (Suc k) n s = Inr s'"
  obtains s1 brk where "iteration pg alpha beta n s = Inr (s1, brk)"
    "(if brk then Inr s1 else loop pg alpha beta k (Suc n) s1) = Inr s'"
proof -
  from assms have "bind_res (iteration pg alpha beta n s)
       (\<lambda>(s', brk). if brk then Inr s' else loop pg alpha beta k (Suc n) s') = Inr s'"
    by (simp only: loop.simps)
  then obtain r where r: "iteration pg alpha beta n s = Inr r"
    "(\<lambda>(s', brk). if brk then Inr s' else loop pg alpha beta k (Suc n) s') r = Inr s'"
    by (subst (asm) bind_res_Inr_iff) blast
  obtain s1 brk where "r = (s1, brk)" by (cases r)
  with r that show ?thesis by simp
qed

lemma loop_frameE:
  assumes "loop pg alpha beta k n s = Inr s'"
  obtains c a e l where
    "s' = s\<lparr>counter := c, sol_mesh := a, energy_series := e, logs := l\<rparr>"
  using assms
proof (induction k arbitrary: n s thesis)
  case 0
  from "0.prems"(2) have "s' = s\<lparr>counter := counter s, sol_mesh := sol_mesh s, energy_series := energy_series s, logs := logs s\<rparr>"
    by simp
  then show ?case by (rule "0.prems"(1))
next
  case (Suc k)
  from Suc.prems(2) obtain s1 brk where it: "iteration pg alpha beta n s = Inr (s1, brk)"
    and rest: "(if brk then Inr s1 else loop pg alpha beta k (Suc n) s1) = Inr s'"
    by (rule loop_SucE)
  from it obtain a e l where
    s1: "s1 = s\<lparr>counter := n, sol_mesh := a, energy_series := (energy_series s)[n := e], logs := l\<rparr>"
    by (rule iteration_frameE)
  show ?case
  proof (cases brk)
    case True
    with rest have "s' = s1" by simp
    then show ?thesis unfolding s1 by (rule Suc.prems(1))
  next
    case False
    with rest have r: "loop pg alpha beta k (Suc n) s1 = Inr s'" by simp
    obtain c a' e' l' where
      "s' = s1\<lparr>counter := c, sol_mesh := a', energy_series := e', logs := l'\<rparr>"
      using Suc.IH[OF _ r] by blast
    then have "s' = s\<lparr>counter := c, sol_mesh := a', energy_series := e', logs := l'\<rparr>"
      unfolding s1 by simp
    then show ?thesis by (rule Suc.prems(1))
  qed
qed

lemma solveE:
  assumes "solve s = Inr s'"
  obtains pg beta s1 where "0 \<le> time_len s" "pot_grid s = Some pg" "conforming s"
    "coeff_beta (step (time_dom s)) pg = Inr beta"
    "prepare (s\<lparr>energy_series := replicate (nat (time_len s)) 0\<rparr>) = Inr s1"
    "loop pg (coeff_alpha (step (time_dom s)) pg beta) beta (nat (t_len s1)) 0 s1 = Inr s'"
proof -
  from assms have tl: "0 \<le> time_len s"
    by (simp add: solve_def split: if_splits)
  with assms obtain pg where pg: "pot_grid s = Some pg"
    by (cases "pot_grid s") (simp_all add: solve_def)
  with assms tl have c: "conforming s"
    by (simp add: solve_def split: if_splits)
  with assms tl pg have "bind_res (coeff_beta (step (time_dom s)) pg) (\<lambda>beta.
               bind_res (prepare (s\<lparr>energy_series := replicate (nat (time_len s)) 0\<rparr>)) (\<lambda>s1.
                 loop pg (coeff_alpha (step (time_dom s)) pg beta) beta (nat (t_len s1)) 0 s1)) = Inr s'"
    by (simp add: solve_def)
  then obtain beta where b: "coeff_beta (step (time_dom s)) pg = Inr beta"
    and r: "bind_res (prepare (s\<lparr>energy_series := replicate (nat (time_len s)) 0\<rparr>)) (\<lambda>s1.
                 loop pg (coeff_alpha (step (time_dom s)) pg beta) beta (nat (t_len s1)) 0 s1) = Inr s'"
    by (subst (asm) bind_res_Inr_iff) blast
  from r obtain s1 where "prepare (s\<lparr>energy_series := replicate (nat (time_len s)) 0\<rparr>) = Inr s1"
    "loop pg (coeff_alpha (step (time_dom s)) pg beta) beta (nat (t_len s1)) 0 s1 = Inr s'"
    by (subst (asm) bind_res_Inr_iff) blast
  with tl pg c b that show ?thesis by blast
qed

lemma deflate_shape:
  "deflate nbk v psi vecs = Inr out \<Longrightarrow> shape out = shape psi"
proof (induction vecs arbitrary: psi)
  case Nil
  then show ?case by simp
next
  case (Cons vec vecs)
  from Cons.prems have "bind_res (normalize nbk v vec) (\<lambda>nvec.
      deflate nbk v (sub psi (scale (np_sum (scale v (mul psi nvec))) vec)) vecs) = Inr out"
    by (simp add: Let_def)
  then obtain nvec where
    "deflate nbk v (sub psi (scale (np_sum (scale v (mul psi nvec))) vec)) vecs = Inr out"
    by (subst (asm) bind_res_Inr_iff) blast
  from Cons.IH[OF this] show ?case by simp
qed

text \<open>What one iteration does, read off its definition.\<close>

lemma iteration_outcomeE:
  assumes "iteration pg alpha beta n s = Inr (s', brk)"
  obtains d px kine e where
    "deflate (nb s) (vol s) (sol_mesh s) (priors s) = Inr d"
    "kinetic (s\<lparr>counter := n, sol_mesh := d\<rparr>) d (np_zeros (sol_shape s)) [0..<ndim s] = Inr (px, kine)"
    "energy pg px kine = Inr e"
    "brk = stop_now (stop_tol s) n ((energy_series s)[n := e]) e"
    "int n + 1 < time_len s \<longrightarrow>
       (\<exists>out. normalize (nb s) (vol s) (update (step (time_dom s)) alpha beta kine px) = Inr out \<and>
         s' = s\<lparr>counter := n, sol_mesh := out, energy_series := (energy_series s)[n := e],
               logs := logs s @ [sqrt (np_sum (mul (update (step (time_dom s)) alpha beta kine px)
                                                    (update (step (time_dom s)) alpha beta kine px)) * vol s)]\<rparr>)"
    "\<not> int n + 1 < time_len s \<longrightarrow>
       s' = s\<lparr>counter := n, sol_mesh := px, energy_series := (energy_series s)[n := e]\<rparr>"
proof -
  from assms obtain s1 px kine e where
    p: "prepare (s\<lparr>counter := n\<rparr>) = Inr s1"
    and k: "kinetic s1 (sol_mesh s1) (np_zeros (sol_shape s1)) [0..<ndim s1] = Inr (px, kine)"
    and e: "energy pg px kine = Inr e"
    and s3: "(if int n + 1 < time_len s1
      then advance alpha beta kine (s1\<lparr>sol_mesh := px, energy_series := (energy_series s1)[n := e]\<rparr>)
      else Inr (s1\<lparr>sol_mesh := px, energy_series := (energy_series s1)[n := e]\<rparr>)) = Inr s'"
    and b: "brk = stop_now (stop_tol s') n (energy_series s') e"
    by (rule iterationE)
  from p obtain d where d: "deflate (nb s) (vol s) (sol_mesh s) (priors s) = Inr d"
    and s1: "s1 = s\<lparr>counter := n, sol_mesh := d\<rparr>"
    by (rule prepareE) simp
  from k have k': "kinetic (s\<lparr>counter := n, sol_mesh := d\<rparr>) d (np_zeros (sol_shape s)) [0..<ndim s] = Inr (px, kine)"
    unfolding s1 by simp
  let ?u = "update (step (time_dom s)) alpha beta kine px"
  have upd: "\<exists>out. normalize (nb s) (vol s) ?u = Inr out \<and>
         s' = s\<lparr>counter := n, sol_mesh := out, energy_series := (energy_series s)[n := e],
               logs := logs s @ [sqrt (np_sum (mul ?u ?u) * vol s)]\<rparr>"
    if t: "int n + 1 < time_len s"
  proof -
    from t s3 have "advance alpha beta kine (s1\<lparr>sol_mesh := px, energy_series := (energy_series s1)[n := e]\<rparr>) = Inr s'"
      unfolding s1 by simp
    then obtain out where
      "normalize (nb s) (vol s) ?u = Inr out"
      "s' = s\<lparr>counter := n, sol_mesh := out, energy_series := (energy_series s)[n := e],
               logs := logs s @ [sqrt (np_sum (mul ?u ?u) * vol s)]\<rparr>"
      by (rule advanceE) (simp add: s1)
    then show ?thesis by blast
  qed
  have skip: "s' = s\<lparr>counter := n, sol_mesh := px, energy_series := (energy_series s)[n := e]\<rparr>"
    if t: "\<not> int n + 1 < time_len s"
    using t s3 unfolding s1 by simp
  have b': "brk = stop_now (stop_tol s) n ((energy_series s)[n := e]) e"
  proof (cases "int n + 1 < time_len s")
    case True
    from upd[OF True] obtain out where
      "s' = s\<lparr>counter := n, sol_mesh := out, energy_series := (energy_series s)[n := e],
               logs := logs s @ [sqrt (np_sum (mul ?u ?u) * vol s)]\<rparr>"
      by blast
    then have "stop_tol s' = stop_tol s" "energy_series s' = (energy_series s)[n := e]"
      by simp_all
    with b show ?thesis by simp
  next
    case False
    from skip[OF False] have "stop_tol s' = stop_tol s" "energy_series s' = (energy_series s)[n := e]"
      by simp_all
    with b show ?thesis by simp
  qed
  from d k' e b' upd skip that show ?thesis by blast
qed

section \<open>Renormalization\<close>

text \<open>
  What \<open>normalize\<close> achieves in each notebook: with the volume element the
  weighted sum of squares becomes one, without it the plain sum of squares does.
\<close>

lemma normalize_columb_unit:
  assumes "normalize Columb3D v psi = Inr out"
  shows "np_sum (mul out out) * v = 1"
proof -
  let ?q = "np_sum (mul psi psi) * v"
  from assms have q: "0 < ?q" and out: "out = scale (1 / sqrt ?q) psi"
    by (auto simp: normalize_def Let_def split: if_splits)
  have "np_sum (mul out out) = (1 / sqrt ?q) * ((1 / sqrt ?q) * np_sum (mul psi psi))"
    by (simp add: out np_sum_scale_mul np_sum_mul_scale)
  also have "\<dots> = np_sum (mul psi psi) / ?q"
    using q by (simp add: field_simps flip: power2_eq_square)
  finally have "np_sum (mul out out) = np_sum (mul psi psi) / ?q" .
  moreover from q have "v \<noteq> 0" and "np_sum (mul psi psi) \<noteq> 0"
    by auto
  ultimately show ?thesis by simp
qed

lemma normalize_free_unit:
  assumes "normalize Free2D v psi = Inr out"
  shows "np_sum (mul out out) = 1"
proof -
  let ?q = "np_sum (mul psi psi)"
  from assms have q: "0 < ?q" and out: "out = scale (1 / sqrt ?q) psi"
    by (auto simp: normalize_def Let_def split: if_splits)
  have "np_sum (mul out out) = (1 / sqrt ?q) * ((1 / sqrt ?q) * ?q)"
    by (simp add: out np_sum_scale_mul np_sum_mul_scale)
  also have "\<dots> = 1"
    using q by (simp add: field_simps flip: power2_eq_square)
  finally show ?thesis .
qed

text \<open>
  Claim C1: after the renormalization of every completed non-final iteration
  the volume-weighted L2 norm \<open>sqrt(sum(solution^2) * volume element)\<close> is one.
  The sample run in the \<open>2d free\<close> notebook performs one non-final iteration
  (the norm \<open>1\<close> is logged, the second and last iteration does not update) and
  leaves the solution \<open>[0, 1, 0]\<close>, whose volume-weighted norm is
  \<open>sqrt (1/4) = 1/2\<close>: that notebook's \<open>normalize\<close> leaves the volume element out.
\<close>

theorem free2d_weighted_norm_example:
  "(case well_run Free2D None of
      Inl e \<Rightarrow> False
    | Inr s \<Rightarrow> counter s = 1 \<and> logs s = [1] \<and> vol s = 1/4 \<and>
        map (\<lambda>k. vals (sol_mesh s) [k]) [0, 1, 2] = [0, 1, 0] \<and>
        sqrt (np_sum (mul (sol_mesh s) (sol_mesh s)) * vol s) = 1/2)"
  unfolding well_run_def well_x_def two_steps_def
  by (simp add: run_simps sqrt_quarter)

section \<open>Deflation\<close>









section \<open>The Dirichlet boundary\<close>

lemma set_indices:
  "set (indices shp) = {c. length c = length shp \<and> (\<forall>i<length shp. c ! i < shp ! i)}"
proof (induction shp)
  case Nil
  then show ?case by simp
next
  case (Cons l ls)
  show ?case
  proof (intro set_eqI iffI)
    fix c assume "c \<in> set (indices (l # ls))"
    then obtain k c' where "k < l" "c' \<in> set (indices ls)" "c = k # c'"
      by auto
    with Cons.IH show "c \<in> {c. length c = length (l # ls) \<and> (\<forall>i<length (l # ls). c ! i < (l # ls) ! i)}"
      by (auto simp: nth_Cons')
  next
    fix c assume "c \<in> {c. length c = length (l # ls) \<and> (\<forall>i<length (l # ls). c ! i < (l # ls) ! i)}"
    then have len: "length c = Suc (length ls)" and all: "\<forall>i<Suc (length ls). c ! i < (l # ls) ! i"
      by simp_all
    from len obtain k c' where c: "c = k # c'" and len': "length c' = length ls"
      by (auto simp: length_Suc_conv)
    from all c have "k < l" by auto
    moreover have "\<forall>i<length ls. c' ! i < ls ! i"
    proof (intro allI impI)
      fix i assume "i < length ls"
      with all have "c ! Suc i < (l # ls) ! Suc i" by blast
      with c show "c' ! i < ls ! i" by simp
    qed
    ultimately show "c \<in> set (indices (l # ls))"
      using Cons.IH len' c by auto
  qed
qed

lemma in_indices_update:
  "c \<in> set (indices shp) \<Longrightarrow> x < shp ! i \<Longrightarrow> c[i := x] \<in> set (indices shp)"
proof (cases "i < length c")
  case True
  assume "c \<in> set (indices shp)" "x < shp ! i"
  with True show ?thesis by (auto simp: set_indices nth_list_update)
next
  case False
  assume "c \<in> set (indices shp)"
  with False show ?thesis by (simp add: list_update_beyond not_less)
qed

lemma on_boundary_iff:
  "on_boundary shp c \<longleftrightarrow> (\<exists>i<length shp. c ! i = 0 \<or> c ! i + 1 = shp ! i)"
  by (auto simp: on_boundary_def list_ex_iff)

lemma zero_on_boundary_iff:
  "zero_on_boundary shp a \<longleftrightarrow> (\<forall>c\<in>set (indices shp). on_boundary shp c \<longrightarrow> vals a c = 0)"
  by (simp add: zero_on_boundary_def list_all_iff)

lemma on_boundary_update:
  assumes "on_boundary shp c" and "\<not> (c ! i = 0 \<or> c ! i + 1 = shp ! i)"
  shows "on_boundary shp (c[i := x])"
proof -
  from assms(1) obtain j where j: "j < length shp" "c ! j = 0 \<or> c ! j + 1 = shp ! j"
    by (auto simp: on_boundary_iff)
  with assms(2) have "j \<noteq> i" by auto
  then have "c[i := x] ! j = c ! j" by simp
  with j show ?thesis by (auto simp: on_boundary_iff)
qed

text \<open>The kinetic term of a field that vanishes on the boundary vanishes there too.\<close>

lemma acc_interior_boundary:
  assumes px: "zero_on_boundary shp px" and kine: "zero_on_boundary shp kine"
    and shp: "shape kine = shp" and i: "i < length shp"
  shows "zero_on_boundary shp (acc_interior kine i (scale k (axis_term px i)))"
  unfolding zero_on_boundary_iff
proof (intro ballI impI)
  fix c assume c: "c \<in> set (indices shp)" and b: "on_boundary shp c"
  from c i have len: "i < length c" by (simp add: set_indices)
  from kine c b have k0: "vals kine c = 0" by (simp add: zero_on_boundary_iff)
  show "vals (acc_interior kine i (scale k (axis_term px i))) c = 0"
  proof (cases "1 \<le> c ! i \<and> c ! i + 1 < shp ! i")
    case False
    with k0 shp show ?thesis by (auto simp: acc_interior_def)
  next
    case True
    then have inner: "\<not> (c ! i = 0 \<or> c ! i + 1 = shp ! i)" by auto
    have "c[i := c ! i - 1] \<in> set (indices shp)" "c[i := c ! i + 1] \<in> set (indices shp)"
      using c True by (auto intro!: in_indices_update)
    moreover have "on_boundary shp (c[i := c ! i - 1])" "on_boundary shp (c[i := c ! i + 1])"
      using b inner by (auto intro!: on_boundary_update)
    ultimately have "vals px (c[i := c ! i - 1]) = 0" "vals px (c[i := c ! i + 1]) = 0" "vals px c = 0"
      using px c b by (auto simp: zero_on_boundary_iff)
    with True k0 shp len show ?thesis
      by (simp add: acc_interior_def axis_term_def scale_def)
  qed
qed

lemma shape_acc_interior [simp]: "shape (acc_interior kine i t) = shape kine"
  by (simp add: acc_interior_def)

lemma kinetic_dirichlet:
  assumes "kinetic s px kine axes = Inr (px', kine')" and "\<not> pbc s"
  shows "px' = px \<and> shape kine' = shape kine \<and>
         (zero_on_boundary shp px \<longrightarrow> zero_on_boundary shp kine \<longrightarrow> shape kine = shp \<longrightarrow>
          (\<forall>i\<in>set axes. i < length shp) \<longrightarrow> zero_on_boundary shp kine')"
  using assms
proof (induction axes arbitrary: kine)
  case Nil
  then show ?case by simp
next
  case (Cons i axes)
  let ?h = "step (spat_dom s ! i)"
  let ?k1 = "acc_interior kine i (scale (1 / (2 * ?h\<^sup>2)) (axis_term px i))"
  from Cons.prems have h: "?h \<noteq> 0" and rest: "kinetic s px ?k1 axes = Inr (px', kine')"
    by (auto simp: axis_step_def bind_res_def Let_def split: if_splits)
  from Cons.IH[OF rest Cons.prems(2)] show ?case
    by (auto intro: acc_interior_boundary)
qed

lemma deflate_boundary:
  assumes "deflate nbk v psi vecs = Inr out" and "zero_on_boundary shp psi"
    and "\<forall>vec\<in>set vecs. zero_on_boundary shp vec"
  shows "zero_on_boundary shp out"
  using assms
proof (induction vecs arbitrary: psi)
  case Nil
  then show ?case by simp
next
  case (Cons vec vecs)
  from Cons.prems(1) have "bind_res (normalize nbk v vec) (\<lambda>nvec.
      deflate nbk v (sub psi (scale (np_sum (scale v (mul psi nvec))) vec)) vecs) = Inr out"
    by (simp add: Let_def)
  then obtain nvec where
    rest: "deflate nbk v (sub psi (scale (np_sum (scale v (mul psi nvec))) vec)) vecs = Inr out"
    by (subst (asm) bind_res_Inr_iff) blast
  have "zero_on_boundary shp (sub psi (scale (np_sum (scale v (mul psi nvec))) vec))"
    using Cons.prems(2,3) by (simp add: zero_on_boundary_iff)
  from Cons.IH[OF rest this] Cons.prems(3) show ?case by simp
qed

lemma advance_boundary:
  assumes "advance alpha beta kine s = Inr s'"
    and "zero_on_boundary shp (sol_mesh s)" and "zero_on_boundary shp kine"
  shows "zero_on_boundary shp (sol_mesh s')"
proof -
  let ?psi = "update (step (time_dom s)) alpha beta kine (sol_mesh s)"
  from assms(1) obtain out where n: "normalize (nb s) (vol s) ?psi = Inr out"
    and s': "sol_mesh s' = out"
    by (rule advanceE) simp
  from n obtain k where "out = scale k ?psi"
    by (auto simp: normalize_def Let_def split: if_splits)
  with assms(2,3) s' show ?thesis
    by (simp add: zero_on_boundary_iff update_def)
qed

lemma iteration_boundary:
  assumes it: "iteration pg alpha beta n s = Inr (s', brk)"
    and dir: "\<not> pbc s" and nd: "ndim s = length (sol_shape s)"
    and sol: "zero_on_boundary (sol_shape s) (sol_mesh s)"
    and pri: "\<forall>vec\<in>set (priors s). zero_on_boundary (sol_shape s) vec"
  shows "zero_on_boundary (sol_shape s) (sol_mesh s')"
proof -
  let ?shp = "sol_shape s"
  from it obtain s1 px kine e where
    p: "prepare (s\<lparr>counter := n\<rparr>) = Inr s1"
    and k: "kinetic s1 (sol_mesh s1) (np_zeros (sol_shape s1)) [0..<ndim s1] = Inr (px, kine)"
    and s3: "(if int n + 1 < time_len s1
      then advance alpha beta kine (s1\<lparr>sol_mesh := px, energy_series := (energy_series s1)[n := e]\<rparr>)
      else Inr (s1\<lparr>sol_mesh := px, energy_series := (energy_series s1)[n := e]\<rparr>)) = Inr s'"
    by (rule iterationE)
  from p obtain a where d: "deflate (nb s) (vol s) (sol_mesh s) (priors s) = Inr a"
    and s1: "s1 = s\<lparr>counter := n, sol_mesh := a\<rparr>"
    by (rule prepareE) simp
  from deflate_boundary[OF d sol pri] have a0: "zero_on_boundary ?shp a" .
  have z0: "zero_on_boundary ?shp (np_zeros ?shp)"
    by (simp add: zero_on_boundary_iff np_zeros_def)
  from k have k': "kinetic s1 a (np_zeros ?shp) [0..<length ?shp] = Inr (px, kine)"
    unfolding s1 by (simp add: nd)
  from dir have "\<not> pbc s1" unfolding s1 by simp
  from kinetic_dirichlet[OF k' this, of ?shp] a0 z0
  have px: "px = a" and kine0: "zero_on_boundary ?shp kine"
    by (simp_all add: np_zeros_def)
  show ?thesis
  proof (cases "int n + 1 < time_len s1")
    case True
    with s3 have "advance alpha beta kine (s1\<lparr>sol_mesh := px, energy_series := (energy_series s1)[n := e]\<rparr>) = Inr s'"
      by simp
    from advance_boundary[OF this _ kine0] a0 px show ?thesis by simp
  next
    case False
    with s3 have "s' = s1\<lparr>sol_mesh := px, energy_series := (energy_series s1)[n := e]\<rparr>"
      by simp
    with a0 px show ?thesis by simp
  qed
qed

lemma loop_boundary:
  assumes "loop pg alpha beta k n s = Inr s'"
    and "\<not> pbc s" and "ndim s = length (sol_shape s)"
    and "zero_on_boundary (sol_shape s) (sol_mesh s)"
    and "\<forall>vec\<in>set (priors s). zero_on_boundary (sol_shape s) vec"
  shows "zero_on_boundary (sol_shape s) (sol_mesh s')"
  using assms
proof (induction k arbitrary: n s)
  case 0
  then show ?case by simp
next
  case (Suc k)
  from Suc.prems(1) obtain s1 brk where it: "iteration pg alpha beta n s = Inr (s1, brk)"
    and rest: "(if brk then Inr s1 else loop pg alpha beta k (Suc n) s1) = Inr s'"
    by (rule loop_SucE)
  from iteration_boundary[OF it Suc.prems(2-5)]
  have b1: "zero_on_boundary (sol_shape s) (sol_mesh s1)" .
  from it obtain a e l where
    s1: "s1 = s\<lparr>counter := n, sol_mesh := a, energy_series := (energy_series s)[n := e], logs := l\<rparr>"
    by (rule iteration_frameE)
  show ?case
  proof (cases brk)
    case True
    with rest b1 show ?thesis by simp
  next
    case False
    with rest have r: "loop pg alpha beta k (Suc n) s1 = Inr s'" by simp
    have f: "\<not> pbc s1" "ndim s1 = length (sol_shape s1)" "sol_shape s1 = sol_shape s"
      "\<forall>vec\<in>set (priors s1). zero_on_boundary (sol_shape s1) vec"
      using Suc.prems(2,3,5) unfolding s1 by simp_all
    from b1 f(3) have "zero_on_boundary (sol_shape s1) (sol_mesh s1)" by simp
    from Suc.IH[OF r f(1,2) this f(4)] f(3) show ?thesis by simp
  qed
qed

text \<open>Ingestion of the initial field.\<close>

lemma set_plane_zeroE:
  assumes "set_plane nd a i k 0 = Inr a'"
  obtains k' where "norm_index (shape a ! i) k = Some k'"
    "a' = a\<lparr>vals := (\<lambda>c. if c ! i = k' then 0 else vals a c)\<rparr>"
  using assms by (auto simp: set_plane_def split: if_splits option.splits)

lemma boundary_axes_zero:
  assumes "boundary_axes nd a xs = Inr a'"
    and "\<forall>(i, l)\<in>set xs. shape a ! i = l"
  shows "shape a' = shape a \<and> (\<forall>c. vals a c = 0 \<longrightarrow> vals a' c = 0) \<and>
         (\<forall>c. (\<exists>(i, l)\<in>set xs. c ! i = 0 \<or> c ! i + 1 = l) \<longrightarrow> vals a' c = 0)"
  using assms
proof (induction xs arbitrary: a)
  case Nil
  then show ?case by simp
next
  case (Cons p xs)
  obtain i l where p: "p = (i, l)" by (cases p)
  from Cons.prems(1) have "bind_res (set_plane nd a i 0 0) (\<lambda>a1.
     bind_res (set_plane nd a1 i (int l - 1) 0) (\<lambda>a2. boundary_axes nd a2 xs)) = Inr a'"
    unfolding p by (simp only: boundary_axes.simps)
  then obtain a1 where a1: "set_plane nd a i 0 0 = Inr a1"
    and r1: "bind_res (set_plane nd a1 i (int l - 1) 0) (\<lambda>a2. boundary_axes nd a2 xs) = Inr a'"
    by (subst (asm) bind_res_Inr_iff) blast
  from r1 obtain a2 where a2: "set_plane nd a1 i (int l - 1) 0 = Inr a2"
    and rest: "boundary_axes nd a2 xs = Inr a'"
    by (subst (asm) bind_res_Inr_iff) blast
  from Cons.prems(2) have l: "shape a ! i = l" and shp: "\<forall>(i, l)\<in>set xs. shape a ! i = l"
    by (simp_all add: p)
  from a1 obtain k1 where k1: "norm_index (shape a ! i) 0 = Some k1"
    and a1': "a1 = a\<lparr>vals := (\<lambda>c. if c ! i = k1 then 0 else vals a c)\<rparr>"
    by (rule set_plane_zeroE)
  from k1 l have l0: "0 < l" and k10: "k1 = 0"
    by (auto simp: norm_index_def split: if_splits)
  from a2 obtain k2 where k2: "norm_index (shape a1 ! i) (int l - 1) = Some k2"
    and a2': "a2 = a1\<lparr>vals := (\<lambda>c. if c ! i = k2 then 0 else vals a1 c)\<rparr>"
    by (rule set_plane_zeroE)
  from k2 l l0 have k2l: "k2 = l - 1"
    by (auto simp: norm_index_def a1' split: if_splits)
  have shape2: "shape a2 = shape a" by (simp add: a2' a1')
  have vals2: "vals a2 c = (if c ! i = 0 \<or> c ! i + 1 = l then 0 else vals a c)" for c
    using l0 by (auto simp: a2' a1' k10 k2l)
  from shp shape2 have "\<forall>(i, l)\<in>set xs. shape a2 ! i = l" by simp
  from Cons.IH[OF rest this] have IH: "shape a' = shape a2"
    "\<And>c. vals a2 c = 0 \<Longrightarrow> vals a' c = 0"
    "\<And>c. \<exists>(i, l)\<in>set xs. c ! i = 0 \<or> c ! i + 1 = l \<Longrightarrow> vals a' c = 0"
    by blast+
  show ?case
  proof (intro conjI allI impI)
    show "shape a' = shape a" using IH(1) shape2 by simp
  next
    fix c assume "vals a c = 0"
    then have "vals a2 c = 0" by (simp add: vals2)
    then show "vals a' c = 0" by (rule IH(2))
  next
    fix c assume "\<exists>(i, l)\<in>set (p # xs). c ! i = 0 \<or> c ! i + 1 = l"
    then consider "c ! i = 0 \<or> c ! i + 1 = l" | "\<exists>(i, l)\<in>set xs. c ! i = 0 \<or> c ! i + 1 = l"
      by (auto simp: p)
    then show "vals a' c = 0"
    proof cases
      case 1
      then have "vals a2 c = 0" by (simp add: vals2)
      then show ?thesis by (rule IH(2))
    next
      case 2
      then show ?thesis by (rule IH(3))
    qed
  qed
qed

lemma apply_boundary_zero:
  assumes "apply_boundary s = Inr s'" and "bd_cond s = None" and "\<not> pbc s"
    and "shape (sol_mesh s) = sol_shape s"
  shows "zero_on_boundary (sol_shape s) (sol_mesh s') \<and> shape (sol_mesh s') = sol_shape s \<and>
         (\<exists>a. s' = s\<lparr>sol_mesh := a\<rparr>)"
proof -
  from assms(1-3) have "bind_res (boundary_axes (ndim s) (sol_mesh s) (enumerate 0 (sol_shape s)))
             (\<lambda>a. Inr (s\<lparr>sol_mesh := a\<rparr>)) = Inr s'"
    by (simp add: apply_boundary_def)
  then obtain a where a: "boundary_axes (ndim s) (sol_mesh s) (enumerate 0 (sol_shape s)) = Inr a"
    and s': "s' = s\<lparr>sol_mesh := a\<rparr>"
    by (subst (asm) bind_res_Inr_iff) auto
  have "\<forall>(i, l)\<in>set (enumerate 0 (sol_shape s)). shape (sol_mesh s) ! i = l"
    by (auto simp: in_set_enumerate_eq assms(4))
  from boundary_axes_zero[OF a this] have shp: "shape a = shape (sol_mesh s)"
    and z: "\<And>c. \<exists>(i, l)\<in>set (enumerate 0 (sol_shape s)). c ! i = 0 \<or> c ! i + 1 = l \<Longrightarrow> vals a c = 0"
    by blast+
  have "zero_on_boundary (sol_shape s) a"
    unfolding zero_on_boundary_iff on_boundary_iff
  proof (intro ballI impI)
    fix c assume "\<exists>i<length (sol_shape s). c ! i = 0 \<or> c ! i + 1 = sol_shape s ! i"
    then obtain i where "i < length (sol_shape s)" "c ! i = 0 \<or> c ! i + 1 = sol_shape s ! i"
      by blast
    then have "\<exists>(i, l)\<in>set (enumerate 0 (sol_shape s)). c ! i = 0 \<or> c ! i + 1 = l"
      by (intro bexI[of _ "(i, sol_shape s ! i)"]) (auto simp: in_set_enumerate_eq)
    then show "vals a c = 0" by (rule z)
  qed
  with shp s' assms(4) show ?thesis by auto
qed

lemma solve_boundary:
  assumes "solve s = Inr s'" and "\<not> pbc s"
    and "zero_on_boundary (sol_shape s) (sol_mesh s)"
    and "\<forall>vec\<in>set (priors s). zero_on_boundary (sol_shape s) vec"
  shows "zero_on_boundary (sol_shape s) (sol_mesh s')"
proof -
  from assms(1) obtain pg beta s1 where c: "conforming s"
    and p: "prepare (s\<lparr>energy_series := replicate (nat (time_len s)) 0\<rparr>) = Inr s1"
    and l: "loop pg (coeff_alpha (step (time_dom s)) pg beta) beta (nat (t_len s1)) 0 s1 = Inr s'"
    by (rule solveE)
  from p obtain a where d: "deflate (nb s) (vol s) (sol_mesh s) (priors s) = Inr a"
    and s1: "s1 = s\<lparr>energy_series := replicate (nat (time_len s)) 0, sol_mesh := a\<rparr>"
    by (rule prepareE) simp
  from deflate_boundary[OF d assms(3,4)] have a0: "zero_on_boundary (sol_shape s) a" .
  from c have nd: "ndim s = length (sol_shape s)" by (simp add: conforming_def)
  have f: "\<not> pbc s1" "ndim s1 = length (sol_shape s1)" "sol_shape s1 = sol_shape s"
    "zero_on_boundary (sol_shape s1) (sol_mesh s1)"
    "\<forall>vec\<in>set (priors s1). zero_on_boundary (sol_shape s1) vec"
    using assms(2,4) a0 nd by (simp_all add: s1)
  from loop_boundary[OF l f(1,2,4,5)] f(3) show ?thesis by simp
qed

text \<open>
  Claim C3, as amended: in the default Dirichlet mode the solution's boundary
  values (index \<open>0\<close> and index \<open>extent - 1\<close> along every axis) are forced to zero
  when an initial field of the grid shape is ingested, and, provided every prior
  state is zero at every boundary point, the solution that \<open>solve\<close> leaves is
  zero at every boundary point, whatever the iteration cap: the update and the
  renormalization keep a zero boundary, no step resets it.
\<close>

theorem dirichlet_boundary_stays_zero:
  assumes "bd_cond s = None" and "pbc s = False" and "shape psi0 = sol_shape s"
    and "list_all (zero_on_boundary (sol_shape s)) (priors s)"
    and "set_psi0_by_grid psi0 s = Inr s1" and "solve s1 = Inr s2"
  shows "zero_on_boundary (sol_shape s) (sol_mesh s1) \<and>
         zero_on_boundary (sol_shape s) (sol_mesh s2)"
proof -
  from assms(5) have "bind_res (apply_boundary (s\<lparr>sol_mesh := psi0\<rparr>)) (\<lambda>t.
       Inr (t\<lparr>pot_grid := Some \<lparr>shape = sol_shape t,
                       vals = (\<lambda>c. pot t (map2 (\<lambda>xs k. xs ! k) (spaces t) c))\<rparr>\<rparr>)) = Inr s1"
    by (simp add: set_psi0_by_grid_def initialize_def)
  then obtain t where t: "apply_boundary (s\<lparr>sol_mesh := psi0\<rparr>) = Inr t"
    and s1: "s1 = t\<lparr>pot_grid := Some \<lparr>shape = sol_shape t,
                       vals = (\<lambda>c. pot t (map2 (\<lambda>xs k. xs ! k) (spaces t) c))\<rparr>\<rparr>"
    by (subst (asm) bind_res_Inr_iff) auto
  from apply_boundary_zero[OF t] assms(1-3) obtain a where
    z: "zero_on_boundary (sol_shape s) (sol_mesh t)" and t': "t = s\<lparr>sol_mesh := psi0, sol_mesh := a\<rparr>"
    by auto
  from z have z1: "zero_on_boundary (sol_shape s) (sol_mesh s1)"
    by (simp add: s1)
  have f: "sol_shape s1 = sol_shape s" "priors s1 = priors s" "\<not> pbc s1"
    using assms(2) by (simp_all add: s1 t')
  from assms(4) have "\<forall>vec\<in>set (priors s). zero_on_boundary (sol_shape s) vec"
    by (simp add: list_all_iff)
  with solve_boundary[OF assms(6)] f z1
  have "zero_on_boundary (sol_shape s) (sol_mesh s2)" by simp
  with z1 show ?thesis by simp
qed

theorem dirichlet_boundary_stays_zero_witness:
  "bd_cond square_sys = None \<and> pbc square_sys = False \<and>
   shape square_psi0 = sol_shape square_sys \<and>
   list_all (zero_on_boundary (sol_shape square_sys)) (priors square_sys) \<and>
   set_psi0_by_grid square_psi0 square_sys = Inr (projr (set_psi0_by_grid square_psi0 square_sys)) \<and>
   solve (projr (set_psi0_by_grid square_psi0 square_sys)) =
     Inr (projr (solve (projr (set_psi0_by_grid square_psi0 square_sys)))) \<and>
   zero_on_boundary (sol_shape square_sys) (sol_mesh (projr (set_psi0_by_grid square_psi0 square_sys))) \<and>
   zero_on_boundary (sol_shape square_sys)
     (sol_mesh (projr (solve (projr (set_psi0_by_grid square_psi0 square_sys)))))"
proof -
  let ?s = "square_sys"
  let ?s1 = "projr (set_psi0_by_grid square_psi0 ?s)"
  have h1: "bd_cond ?s = None" and h2: "pbc ?s = False"
    and h3: "shape square_psi0 = sol_shape ?s"
    and h4: "list_all (zero_on_boundary (sol_shape ?s)) (priors ?s)"
    by (simp_all add: run_simps well_x_def short_steps_def square_sys_def square_psi0_def arr2_def)
  have h5: "set_psi0_by_grid square_psi0 ?s = Inr ?s1"
    by (simp add: run_simps well_x_def short_steps_def square_sys_def square_psi0_def arr2_def)
  have h6: "solve ?s1 = Inr (projr (solve ?s1))"
    by (simp add: run_simps well_x_def short_steps_def square_sys_def square_psi0_def arr2_def
        sqrt_quarter)
  from dirichlet_boundary_stays_zero[OF h1 h2 h3 h4 h5 h6] h1 h2 h3 h4 h5 h6
  show ?thesis by blast
qed

text \<open>The run behind it: only the centre point of the square carries a value.\<close>

lemma square_run_value:
  "(case bind_res (set_psi0_by_grid square_psi0 square_sys) solve of
      Inl e \<Rightarrow> False
    | Inr s \<Rightarrow> map (vals (sol_mesh s)) (indices [3, 3]) = [0, 0, 0, 0, 4, 0, 0, 0, 0] \<and>
        logs s = [1/2] \<and> energy_series s = [32, 32] \<and> vol s = 1/16)"
  by (simp add: run_simps well_x_def short_steps_def square_sys_def square_psi0_def arr2_def
      sqrt_quarter)

text \<open>
  With a prior state that does not vanish on the boundary the deflation moves
  the boundary values, and nothing resets them: after its only iteration the
  sample run holds \<open>-0.5\<close> at both boundary points.
\<close>

theorem boundary_counterexample:
  "(case flat_prior_run of
      Inl e \<Rightarrow> False
    | Inr s \<Rightarrow> bd_cond s = None \<and> \<not> pbc s \<and> counter s = 0 \<and> logs s = [1] \<and>
        map (\<lambda>k. vals (sol_mesh s) [k]) [0, 1, 2, 3] = [- 1/2, - 1/2, - 1/2, - 1/2] \<and>
        \<not> zero_on_boundary (sol_shape s) (sol_mesh s))"
  by (simp add: run_simps unit_x4_def three_steps_def flat_prior_run_def zero_on_boundary_def
      on_boundary_def)

section \<open>The loop of \<open>solve\<close>: halting, energies and updates\<close>

lemma stop_now_cong:
  "es ! (n - 1) = es' ! (n - 1) \<Longrightarrow> stop_now tol n es e = stop_now tol n es' e"
  by (simp add: stop_now_def split: option.splits)

text \<open>
  The state a run of the loop leaves is the outcome of its last iteration,
  whose index is the counter.
\<close>

lemma loop_trace:
  assumes "loop pg alpha beta (Suc k) n s = Inr s'"
    and "int (n + Suc k) \<le> time_len s"
    and "n + Suc k \<le> length (energy_series s)"
  shows "\<exists>s0 brk c a es l.
           iteration pg alpha beta (counter s') s0 = Inr (s', brk) \<and>
           s0 = s\<lparr>counter := c, sol_mesh := a, energy_series := es, logs := l\<rparr> \<and>
           length es = length (energy_series s) \<and>
           length l = length (logs s) + (counter s' - n) \<and>
           n \<le> counter s' \<and> counter s' \<le> n + k \<and> (counter s' < n + k \<longrightarrow> brk) \<and>
           (\<forall>j. n \<le> j \<and> j < counter s' \<longrightarrow>
                \<not> stop_now (stop_tol s) j (energy_series s') (energy_series s' ! j)) \<and>
           (\<forall>j<n. energy_series s' ! j = energy_series s ! j) \<and>
           length (energy_series s') = length (energy_series s)"
  using assms
proof (induction k arbitrary: n s)
  case 0
  from "0.prems"(1) obtain s1 brk where it: "iteration pg alpha beta n s = Inr (s1, brk)"
    and rest: "(if brk then Inr s1 else loop pg alpha beta 0 (Suc n) s1) = Inr s'"
    by (rule loop_SucE)
  from rest have s': "s' = s1" by (simp split: if_splits)
  from it obtain a e l where
    s1: "s1 = s\<lparr>counter := n, sol_mesh := a, energy_series := (energy_series s)[n := e], logs := l\<rparr>"
    by (rule iteration_frameE)
  have c: "counter s' = n" and es: "energy_series s' = (energy_series s)[n := e]"
    by (simp_all add: s' s1)
  have "counter s1 = n" by (simp add: s1)
  with it have "iteration pg alpha beta (counter s') s = Inr (s', brk)"
    by (simp add: s')
  with c es show ?case
    by (rule_tac exI[of _ s], rule_tac exI[of _ brk], rule_tac exI[of _ "counter s"],
        rule_tac exI[of _ "sol_mesh s"], rule_tac exI[of _ "energy_series s"],
        rule_tac exI[of _ "logs s"]) auto
next
  case (Suc k)
  from Suc.prems(1) obtain s1 brk where it: "iteration pg alpha beta n s = Inr (s1, brk)"
    and rest: "(if brk then Inr s1 else loop pg alpha beta (Suc k) (Suc n) s1) = Inr s'"
    by (rule loop_SucE)
  from it obtain d px kine e where
    "deflate (nb s) (vol s) (sol_mesh s) (priors s) = Inr d"
    "kinetic (s\<lparr>counter := n, sol_mesh := d\<rparr>) d (np_zeros (sol_shape s)) [0..<ndim s] = Inr (px, kine)"
    "energy pg px kine = Inr e"
    and b: "brk = stop_now (stop_tol s) n ((energy_series s)[n := e]) e"
    and upd: "int n + 1 < time_len s \<longrightarrow>
       (\<exists>out. normalize (nb s) (vol s) (update (step (time_dom s)) alpha beta kine px) = Inr out \<and>
         s1 = s\<lparr>counter := n, sol_mesh := out, energy_series := (energy_series s)[n := e],
               logs := logs s @ [sqrt (np_sum (mul (update (step (time_dom s)) alpha beta kine px)
                                                    (update (step (time_dom s)) alpha beta kine px)) * vol s)]\<rparr>)"
    and "\<not> int n + 1 < time_len s \<longrightarrow>
       s1 = s\<lparr>counter := n, sol_mesh := px, energy_series := (energy_series s)[n := e]\<rparr>"
    by (rule iteration_outcomeE)
  from Suc.prems(2) have "int n + 1 < time_len s" by simp
  with upd obtain out x where
    s1: "s1 = s\<lparr>counter := n, sol_mesh := out, energy_series := (energy_series s)[n := e],
               logs := logs s @ [x]\<rparr>"
    by blast
  show ?case
  proof (cases brk)
    case True
    with rest have s': "s' = s1" by simp
    have c: "counter s' = n" and es: "energy_series s' = (energy_series s)[n := e]"
      by (simp_all add: s' s1)
    have "counter s1 = n" by (simp add: s1)
    with it have "iteration pg alpha beta (counter s') s = Inr (s', brk)"
      by (simp add: s')
    with c es True show ?thesis
      by (rule_tac exI[of _ s], rule_tac exI[of _ brk], rule_tac exI[of _ "counter s"],
          rule_tac exI[of _ "sol_mesh s"], rule_tac exI[of _ "energy_series s"],
          rule_tac exI[of _ "logs s"]) auto
  next
    case False
    with rest have r: "loop pg alpha beta (Suc k) (Suc n) s1 = Inr s'" by simp
    have p2: "int (Suc n + Suc k) \<le> time_len s1" and p3: "Suc n + Suc k \<le> length (energy_series s1)"
      using Suc.prems(2,3) by (simp_all add: s1)
    from Suc.IH[OF r p2 p3] obtain s0 brk' c a es l where
      it': "iteration pg alpha beta (counter s') s0 = Inr (s', brk')"
      and s0: "s0 = s1\<lparr>counter := c, sol_mesh := a, energy_series := es, logs := l\<rparr>"
      and les: "length es = length (energy_series s1)"
      and ll: "length l = length (logs s1) + (counter s' - Suc n)"
      and lo: "Suc n \<le> counter s'" and hi: "counter s' \<le> Suc n + k"
      and early: "counter s' < Suc n + k \<longrightarrow> brk'"
      and nostop: "\<forall>j. Suc n \<le> j \<and> j < counter s' \<longrightarrow>
                \<not> stop_now (stop_tol s1) j (energy_series s') (energy_series s' ! j)"
      and keep: "\<forall>j<Suc n. energy_series s' ! j = energy_series s1 ! j"
      and len: "length (energy_series s') = length (energy_series s1)"
      by blast
    have s0': "s0 = s\<lparr>counter := c, sol_mesh := a, energy_series := es, logs := l\<rparr>"
      unfolding s0 s1 by simp
    have nlen: "n < length (energy_series s)" using Suc.prems(3) by simp
    have en: "energy_series s' ! n = e"
      using keep nlen by (simp add: s1)
    have prev: "energy_series s' ! (n - 1) = (energy_series s)[n := e] ! (n - 1)"
      using keep by (simp add: s1)
    from False b have "\<not> stop_now (stop_tol s) n ((energy_series s)[n := e]) e" by simp
    then have ns: "\<not> stop_now (stop_tol s) n (energy_series s') (energy_series s' ! n)"
      using stop_now_cong[OF prev, of "stop_tol s" e] by (simp add: en)
    have nostop': "\<not> stop_now (stop_tol s) j (energy_series s') (energy_series s' ! j)"
      if "n \<le> j" "j < counter s'" for j
    proof (cases "j = n")
      case True
      with ns show ?thesis by simp
    next
      case False
      with that have "Suc n \<le> j" by simp
      with nostop that(2) show ?thesis by (simp add: s1)
    qed
    have keep': "energy_series s' ! j = energy_series s ! j" if "j < n" for j
      using keep that by (simp add: s1)
    have ll': "length l = length (logs s) + (counter s' - n)"
      using ll lo by (simp add: s1)
    from it' s0' les ll' lo hi early nostop' keep' len show ?thesis
      by (rule_tac exI[of _ s0], rule_tac exI[of _ brk'], rule_tac exI[of _ c], rule_tac exI[of _ a],
          rule_tac exI[of _ es], rule_tac exI[of _ l]) (simp add: s1)
  qed
qed

lemma axis_step_cong:
  "pbc s = pbc t \<Longrightarrow> spat_dom s = spat_dom t \<Longrightarrow> axis_step s i px kine = axis_step t i px kine"
  by (simp add: axis_step_def)

lemma kinetic_cong:
  "pbc s = pbc t \<Longrightarrow> spat_dom s = spat_dom t \<Longrightarrow> kinetic s px kine axes = kinetic t px kine axes"
  by (induction axes arbitrary: px kine) (simp_all add: axis_step_cong[of s t])

text \<open>The last iteration of a run of \<open>solve\<close>.\<close>

lemma solve_last_iteration:
  assumes "solve s = Inr s'" and "0 < t_len s"
  obtains pg alpha beta s0 brk c a es l where
    "pot_grid s = Some pg"
    "iteration pg alpha beta (counter s') s0 = Inr (s', brk)"
    "s0 = s\<lparr>counter := c, sol_mesh := a, energy_series := es, logs := l\<rparr>"
    "length es = nat (time_len s)"
    "length l = length (logs s) + counter s'"
    "int (counter s') < t_len s"
    "int (counter s') + 1 < t_len s \<longrightarrow> brk"
    "\<forall>j<counter s'. \<not> stop_now (stop_tol s) j (energy_series s') (energy_series s' ! j)"
proof -
  from assms(1) obtain pg beta s1 where pg: "pot_grid s = Some pg"
    and p: "prepare (s\<lparr>energy_series := replicate (nat (time_len s)) 0\<rparr>) = Inr s1"
    and l: "loop pg (coeff_alpha (step (time_dom s)) pg beta) beta (nat (t_len s1)) 0 s1 = Inr s'"
    by (rule solveE)
  from p obtain a1 where
    s1: "s1 = s\<lparr>energy_series := replicate (nat (time_len s)) 0, sol_mesh := a1\<rparr>"
    by (rule prepareE) simp
  have tl: "t_len s1 = t_len s" by (simp add: s1 t_len_def split: option.splits)
  have le: "t_len s \<le> time_len s"
    by (simp add: t_len_def split: option.splits)
  from assms(2) obtain k where k: "nat (t_len s) = Suc k"
    by (cases "nat (t_len s)") simp_all
  from l have l': "loop pg (coeff_alpha (step (time_dom s)) pg beta) beta (Suc k) 0 s1 = Inr s'"
    by (simp add: tl k)
  have p2: "int (0 + Suc k) \<le> time_len s1" and p3: "0 + Suc k \<le> length (energy_series s1)"
    using k le by (simp_all add: s1)
  from loop_trace[OF l' p2 p3] obtain s0 brk c a es ll where
    it: "iteration pg (coeff_alpha (step (time_dom s)) pg beta) beta (counter s') s0 = Inr (s', brk)"
    and s0: "s0 = s1\<lparr>counter := c, sol_mesh := a, energy_series := es, logs := ll\<rparr>"
    and les: "length es = length (energy_series s1)"
    and lll: "length ll = length (logs s1) + (counter s' - 0)"
    and hi: "counter s' \<le> 0 + k" and early: "counter s' < 0 + k \<longrightarrow> brk"
    and nostop: "\<forall>j. 0 \<le> j \<and> j < counter s' \<longrightarrow>
                \<not> stop_now (stop_tol s1) j (energy_series s') (energy_series s' ! j)"
    by blast
  have s0': "s0 = s\<lparr>counter := c, sol_mesh := a, energy_series := es, logs := ll\<rparr>"
    unfolding s0 s1 by simp
  have "length es = nat (time_len s)" using les by (simp add: s1)
  moreover have "length ll = length (logs s) + counter s'" using lll by (simp add: s1)
  moreover have "int (counter s') < t_len s" using hi k by linarith
  moreover have "int (counter s') + 1 < t_len s \<longrightarrow> brk" using early k by auto
  moreover have "\<forall>j<counter s'. \<not> stop_now (stop_tol s) j (energy_series s') (energy_series s' ! j)"
    using nostop by (simp add: s1)
  ultimately show ?thesis using pg it s0' by (rule that[rotated 3])
qed

lemma iteration_entry:
  assumes "iteration pg alpha beta n s = Inr (s', brk)" and "n < length (energy_series s)"
  shows "brk = stop_now (stop_tol s) n (energy_series s') (energy_series s' ! n) \<and>
         length (logs s') = length (logs s) + (if int n + 1 < time_len s then 1 else 0)"
proof -
  from assms(1) obtain d px kine e where
    "deflate (nb s) (vol s) (sol_mesh s) (priors s) = Inr d"
    "kinetic (s\<lparr>counter := n, sol_mesh := d\<rparr>) d (np_zeros (sol_shape s)) [0..<ndim s] = Inr (px, kine)"
    "energy pg px kine = Inr e"
    and b: "brk = stop_now (stop_tol s) n ((energy_series s)[n := e]) e"
    and upd: "int n + 1 < time_len s \<longrightarrow>
       (\<exists>out. normalize (nb s) (vol s) (update (step (time_dom s)) alpha beta kine px) = Inr out \<and>
         s' = s\<lparr>counter := n, sol_mesh := out, energy_series := (energy_series s)[n := e],
               logs := logs s @ [sqrt (np_sum (mul (update (step (time_dom s)) alpha beta kine px)
                                                    (update (step (time_dom s)) alpha beta kine px)) * vol s)]\<rparr>)"
    and skip: "\<not> int n + 1 < time_len s \<longrightarrow>
       s' = s\<lparr>counter := n, sol_mesh := px, energy_series := (energy_series s)[n := e]\<rparr>"
    by (rule iteration_outcomeE)
  show ?thesis
  proof (cases "int n + 1 < time_len s")
    case True
    with upd obtain out x where
      "s' = s\<lparr>counter := n, sol_mesh := out, energy_series := (energy_series s)[n := e],
               logs := logs s @ [x]\<rparr>"
      by blast
    then have "energy_series s' = (energy_series s)[n := e]" "logs s' = logs s @ [x]"
      by simp_all
    with b assms(2) True show ?thesis by simp
  next
    case False
    with skip have "s' = s\<lparr>counter := n, sol_mesh := px, energy_series := (energy_series s)[n := e]\<rparr>"
      by simp
    then have "energy_series s' = (energy_series s)[n := e]" "logs s' = logs s"
      by simp_all
    with b assms(2) False show ?thesis by simp
  qed
qed



text \<open>
  Claim C5, as amended: the update and the renormalization are skipped exactly on
  the iteration whose index is the time domain's step count minus one, which is
  the final scheduled iteration when no smaller maximum-iteration override is in
  force; the energy of that iteration is recorded from the pre-update solution,
  which stays the solution. Every other iteration updates and renormalizes, so
  the number of logged norms is the number of iterations run, less one exactly
  when the last of them was that iteration.
\<close>

theorem update_skipped_at_time_len:
  assumes "solve s = Inr s'" and "0 < t_len s"
  shows "length (logs s') =
           length (logs s) + (if int (counter s') + 1 = time_len s then counter s' else counter s' + 1) \<and>
         (int (counter s') + 1 = time_len s \<longrightarrow>
            (\<exists>pg d kine. pot_grid s = Some pg \<and>
               kinetic s' d (np_zeros (sol_shape s')) [0..<ndim s'] = Inr (sol_mesh s', kine) \<and>
               energy pg (sol_mesh s') kine = Inr (energy_series s' ! counter s')))"
proof -
  from assms obtain pg alpha beta s0 brk c a es l where
    pg: "pot_grid s = Some pg"
    and it: "iteration pg alpha beta (counter s') s0 = Inr (s', brk)"
    and s0: "s0 = s\<lparr>counter := c, sol_mesh := a, energy_series := es, logs := l\<rparr>"
    and les: "length es = nat (time_len s)"
    and ll: "length l = length (logs s) + counter s'"
    and lt: "int (counter s') < t_len s"
    by (rule solve_last_iteration) blast
  have le: "t_len s \<le> time_len s"
    by (simp add: t_len_def split: option.splits)
  with lt les have inr: "counter s' < length (energy_series s0)" by (simp add: s0)
  from lt le have iff: "\<not> int (counter s') + 1 < time_len s \<longleftrightarrow> int (counter s') + 1 = time_len s"
    by auto
  from iteration_entry[OF it inr] ll iff
  have A: "length (logs s') =
           length (logs s) + (if int (counter s') + 1 = time_len s then counter s' else counter s' + 1)"
    by (auto simp: s0)
  have B: "\<exists>pg d kine. pot_grid s = Some pg \<and>
               kinetic s' d (np_zeros (sol_shape s')) [0..<ndim s'] = Inr (sol_mesh s', kine) \<and>
               energy pg (sol_mesh s') kine = Inr (energy_series s' ! counter s')"
    if last: "int (counter s') + 1 = time_len s"
  proof -
    from it obtain d px kine e where
      "deflate (nb s0) (vol s0) (sol_mesh s0) (priors s0) = Inr d"
      and k: "kinetic (s0\<lparr>counter := counter s', sol_mesh := d\<rparr>) d (np_zeros (sol_shape s0)) [0..<ndim s0] = Inr (px, kine)"
      and e: "energy pg px kine = Inr e"
      and "brk = stop_now (stop_tol s0) (counter s') ((energy_series s0)[counter s' := e]) e"
      and "int (counter s') + 1 < time_len s0 \<longrightarrow>
       (\<exists>out. normalize (nb s0) (vol s0) (update (step (time_dom s0)) alpha beta kine px) = Inr out \<and>
         s' = s0\<lparr>counter := counter s', sol_mesh := out, energy_series := (energy_series s0)[counter s' := e],
               logs := logs s0 @ [sqrt (np_sum (mul (update (step (time_dom s0)) alpha beta kine px)
                                                    (update (step (time_dom s0)) alpha beta kine px)) * vol s0)]\<rparr>)"
      and skip: "\<not> int (counter s') + 1 < time_len s0 \<longrightarrow>
       s' = s0\<lparr>counter := counter s', sol_mesh := px, energy_series := (energy_series s0)[counter s' := e]\<rparr>"
      by (rule iteration_outcomeE)
    from last have "\<not> int (counter s') + 1 < time_len s0" by (simp add: s0)
    with skip have s': "s' = s0\<lparr>counter := counter s', sol_mesh := px, energy_series := (energy_series s0)[counter s' := e]\<rparr>"
      by simp
    have f: "sol_mesh s' = px" "sol_shape s' = sol_shape s0" "ndim s' = ndim s0"
      "pbc s' = pbc s0" "spat_dom s' = spat_dom s0" "energy_series s' = (energy_series s0)[counter s' := e]"
      by (subst s', simp)+
    have "kinetic s' d (np_zeros (sol_shape s')) [0..<ndim s'] = Inr (sol_mesh s', kine)"
      using k kinetic_cong[of s' "s0\<lparr>counter := counter s', sol_mesh := d\<rparr>"] by (simp add: f)
    moreover have "energy pg (sol_mesh s') kine = Inr (energy_series s' ! counter s')"
      using e inr by (simp add: f)
    ultimately show ?thesis using pg by blast
  qed
  from A B show ?thesis by blast
qed

theorem update_skipped_at_time_len_witness:
  "solve (well_start Free2D None) = Inr (projr (solve (well_start Free2D None))) \<and>
   0 < t_len (well_start Free2D None) \<and>
   length (logs (projr (solve (well_start Free2D None)))) =
     length (logs (well_start Free2D None)) +
       (if int (counter (projr (solve (well_start Free2D None)))) + 1 = time_len (well_start Free2D None)
        then counter (projr (solve (well_start Free2D None)))
        else counter (projr (solve (well_start Free2D None))) + 1)"
proof -
  have h1: "solve (well_start Free2D None) = Inr (projr (solve (well_start Free2D None)))"
    by (simp add: run_simps well_start_def well_sys_def well_x_def two_steps_def)
  have h2: "0 < t_len (well_start Free2D None)"
    by (simp add: run_simps well_start_def well_sys_def well_x_def two_steps_def)
  from update_skipped_at_time_len[OF h1 h2] h1 h2 show ?thesis by blast
qed

text \<open>
  With the iteration cap \<open>1\<close> on a time domain of two steps the only scheduled
  iteration is iteration \<open>0\<close>, and it does update and renormalize: a norm is
  logged and the solution \<open>[0, 4, 0]\<close> becomes \<open>[0, 1, 0]\<close>.
\<close>

theorem capped_run_updates_last_iteration:
  "(case well_run Free2D (Some 1) of
      Inl e \<Rightarrow> False
    | Inr s \<Rightarrow> time_len s = 2 \<and> t_len s = 1 \<and> counter s = 0 \<and> logs s = [1] \<and>
        map (\<lambda>k. vals (sol_mesh s) [k]) [0, 1, 2] = [0, 1, 0] \<and> energy_series s = [16, 0])"
  unfolding well_run_def well_x_def two_steps_def
  by (simp add: run_simps sqrt_quarter)

lemma iadd_bcast_shape: "iadd_bcast t r = Inr t' \<Longrightarrow> shape t' = shape t"
  by (auto simp: iadd_bcast_def split: if_splits)

lemma axis_step_shape:
  assumes "axis_step s i px kine = Inr (px', kine')"
  shows "shape px' = shape px \<and> shape kine' = shape kine"
proof -
  from assms obtain px1 where
    p: "(if pbc s then pbc_extrapolate px i else Inr px) = Inr px1"
    and r: "bind_res (if pbc s then pbc_wrap px1 i (axis_term px1 i) else Inr (axis_term px1 i)) (\<lambda>term.
       let h = step (spat_dom s ! i)
       in if h = 0 then Inl NonFinite
          else Inr (px1, acc_interior kine i (scale (1 / (2 * h\<^sup>2)) term))) = Inr (px', kine')"
    unfolding axis_step_def by (subst (asm) bind_res_Inr_iff) blast
  from r obtain trm where
    "(let h = step (spat_dom s ! i)
       in if h = 0 then Inl NonFinite
          else Inr (px1, acc_interior kine i (scale (1 / (2 * h\<^sup>2)) trm))) = Inr (px', kine')"
    by (subst (asm) bind_res_Inr_iff) blast
  then have "px' = px1" "shape kine' = shape kine"
    by (auto simp: Let_def split: if_splits)
  moreover from p have "shape px1 = shape px"
    by (auto simp: pbc_extrapolate_def Let_def split: if_splits)
  ultimately show ?thesis by simp
qed

lemma kinetic_shape:
  "kinetic s px kine axes = Inr (px', kine') \<Longrightarrow> shape px' = shape px \<and> shape kine' = shape kine"
proof (induction axes arbitrary: px kine)
  case Nil
  then show ?case by simp
next
  case (Cons i axes)
  from Cons.prems have "bind_res (axis_step s i px kine) (\<lambda>(px', kine'). kinetic s px' kine' axes) = Inr (px', kine')"
    by (simp only: kinetic.simps)
  then obtain r where r: "axis_step s i px kine = Inr r"
    "(\<lambda>(px', kine'). kinetic s px' kine' axes) r = Inr (px', kine')"
    by (subst (asm) bind_res_Inr_iff) blast
  obtain px1 kine1 where r': "r = (px1, kine1)" by (cases r)
  from r r' axis_step_shape[of s i px kine px1 kine1] Cons.IH[of px1 kine1] show ?case
    by simp
qed

lemma conformingD:
  assumes "conforming s" and "pot_grid s = Some pg"
  shows "shape (sol_mesh s) = sol_shape s" "shape pg = sol_shape s"
  using assms by (simp_all add: conforming_def)

text \<open>
  Claim C6: at every iteration \<open>n\<close> the energy recorded as \<open>EnergySeries[n]\<close> is
  (sum over the grid of potential times solution squared, minus sum of kinetic
  term times solution) divided by (sum of solution squared), on the pre-update
  solution of that iteration, that is the deflated solution \<open>px\<close> and its kinetic
  term.
\<close>

theorem energy_is_rayleigh_quotient:
  assumes "iteration pg alpha beta n s = Inr (s', brk)" and "n < length (energy_series s)"
    and "conforming s" and "pot_grid s = Some pg"
  shows "\<exists>d px kine.
           deflate (nb s) (vol s) (sol_mesh s) (priors s) = Inr d \<and>
           kinetic (s\<lparr>counter := n, sol_mesh := d\<rparr>) d (np_zeros (sol_shape s)) [0..<ndim s] = Inr (px, kine) \<and>
           (\<Sum>c\<leftarrow>indices (sol_shape s). vals px c * vals px c) \<noteq> 0 \<and>
           energy_series s' ! n =
             ((\<Sum>c\<leftarrow>indices (sol_shape s). vals pg c * vals px c * vals px c)
                - (\<Sum>c\<leftarrow>indices (sol_shape s). vals kine c * vals px c))
             / (\<Sum>c\<leftarrow>indices (sol_shape s). vals px c * vals px c)"
proof -
  from assms(1) obtain d px kine e where
    d: "deflate (nb s) (vol s) (sol_mesh s) (priors s) = Inr d"
    and k: "kinetic (s\<lparr>counter := n, sol_mesh := d\<rparr>) d (np_zeros (sol_shape s)) [0..<ndim s] = Inr (px, kine)"
    and e: "energy pg px kine = Inr e"
    and "brk = stop_now (stop_tol s) n ((energy_series s)[n := e]) e"
    and upd: "int n + 1 < time_len s \<longrightarrow>
       (\<exists>out. normalize (nb s) (vol s) (update (step (time_dom s)) alpha beta kine px) = Inr out \<and>
         s' = s\<lparr>counter := n, sol_mesh := out, energy_series := (energy_series s)[n := e],
               logs := logs s @ [sqrt (np_sum (mul (update (step (time_dom s)) alpha beta kine px)
                                                    (update (step (time_dom s)) alpha beta kine px)) * vol s)]\<rparr>)"
    and skip: "\<not> int n + 1 < time_len s \<longrightarrow>
       s' = s\<lparr>counter := n, sol_mesh := px, energy_series := (energy_series s)[n := e]\<rparr>"
    by (rule iteration_outcomeE)
  have es: "energy_series s' = (energy_series s)[n := e]"
  proof (cases "int n + 1 < time_len s")
    case True
    with upd obtain out x where
      "s' = s\<lparr>counter := n, sol_mesh := out, energy_series := (energy_series s)[n := e],
               logs := logs s @ [x]\<rparr>"
      by blast
    then show ?thesis by simp
  next
    case False
    with skip have "s' = s\<lparr>counter := n, sol_mesh := px, energy_series := (energy_series s)[n := e]\<rparr>"
      by simp
    then show ?thesis by simp
  qed
  with assms(2) have en: "energy_series s' ! n = e" by simp
  from kinetic_shape[OF k] deflate_shape[OF d] conformingD[OF assms(3,4)]
  have shp: "shape px = sol_shape s" "shape kine = sol_shape s" "shape pg = sol_shape s"
    by (simp_all add: np_zeros_def)
  from e have nz: "np_sum (mul px px) \<noteq> 0"
    and ev: "e = (np_sum (mul (mul pg px) px) - np_sum (mul kine px)) / np_sum (mul px px)"
    by (auto simp: energy_def split: if_splits)
  from nz have "(\<Sum>c\<leftarrow>indices (sol_shape s). vals px c * vals px c) \<noteq> 0"
    by (simp add: np_sum_def shp)
  moreover from ev en have "energy_series s' ! n =
             ((\<Sum>c\<leftarrow>indices (sol_shape s). vals pg c * vals px c * vals px c)
                - (\<Sum>c\<leftarrow>indices (sol_shape s). vals kine c * vals px c))
             / (\<Sum>c\<leftarrow>indices (sol_shape s). vals px c * vals px c)"
    by (simp add: np_sum_def shp)
  ultimately show ?thesis using d k by blast
qed



lemmas well_simps =
  run_simps well_first_def well_beta_def well_pg_def well_ready_def well_start_def well_sys_def
  well_x_def two_steps_def sqrt_quarter

lemma well_first_value:
  "well_first = Inr (fst (projr well_first), snd (projr well_first))"
  by (simp add: well_simps)

theorem energy_is_rayleigh_quotient_witness:
  "iteration well_pg (coeff_alpha (step (time_dom well_ready)) well_pg well_beta) well_beta 0
     well_ready = Inr (fst (projr well_first), snd (projr well_first)) \<and>
   0 < length (energy_series well_ready) \<and> conforming well_ready \<and>
   pot_grid well_ready = Some well_pg \<and>
   (\<exists>d px kine.
      deflate (nb well_ready) (vol well_ready) (sol_mesh well_ready) (priors well_ready) = Inr d \<and>
      kinetic (well_ready\<lparr>counter := 0, sol_mesh := d\<rparr>) d (np_zeros (sol_shape well_ready))
        [0..<ndim well_ready] = Inr (px, kine) \<and>
      (\<Sum>c\<leftarrow>indices (sol_shape well_ready). vals px c * vals px c) \<noteq> 0 \<and>
      energy_series (fst (projr well_first)) ! 0 =
        ((\<Sum>c\<leftarrow>indices (sol_shape well_ready). vals well_pg c * vals px c * vals px c)
           - (\<Sum>c\<leftarrow>indices (sol_shape well_ready). vals kine c * vals px c))
        / (\<Sum>c\<leftarrow>indices (sol_shape well_ready). vals px c * vals px c))"
proof -
  have h1: "iteration well_pg (coeff_alpha (step (time_dom well_ready)) well_pg well_beta) well_beta 0
     well_ready = Inr (fst (projr well_first), snd (projr well_first))"
    using well_first_value by (simp add: well_first_def)
  have h2: "0 < length (energy_series well_ready)"
    by (simp add: well_ready_def)
  have h3: "conforming well_ready"
    by (simp add: well_simps)
  have h4: "pot_grid well_ready = Some well_pg"
    by (simp add: well_simps)
  from energy_is_rayleigh_quotient[OF h1 h2 h3 h4] h1 h2 h3 h4 show ?thesis
    by blast
qed


section \<open>Ingesting an initial field of another shape\<close>

lemma norm_index_zero: "norm_index n 0 = (if 0 < n then Some 0 else None)"
  by (simp add: norm_index_def)

lemma norm_index_last:
  "0 < n \<Longrightarrow> norm_index n (int l - 1) = (if max 1 l \<le> n then Some (if l = 0 then n - 1 else l - 1) else None)"
  by (auto simp: norm_index_def max_def)

lemma set_plane_result:
  "set_plane nd a i k v =
     (if length (shape a) < nd then Inl IndexError
      else case norm_index (shape a ! i) k of
             None \<Rightarrow> Inl IndexError
           | Some k' \<Rightarrow> Inr (a\<lparr>vals := (\<lambda>c. if c ! i = k' then v else vals a c)\<rparr>))"
  by (simp add: set_plane_def)

lemma boundary_axes_fits:
  assumes "xs \<noteq> [] \<longrightarrow> nd \<le> length (shape a)"
    and "list_all (\<lambda>(i, l). max 1 l \<le> shape a ! i) xs"
  shows "\<exists>a'. boundary_axes nd a xs = Inr a' \<and> shape a' = shape a"
  using assms
proof (induction xs arbitrary: a)
  case Nil
  then show ?case by simp
next
  case (Cons p xs)
  obtain i l where p: "p = (i, l)" by (cases p)
  from Cons.prems have nd: "nd \<le> length (shape a)" and il: "max 1 l \<le> shape a ! i"
    and rest: "list_all (\<lambda>(i, l). max 1 l \<le> shape a ! i) xs"
    by (simp_all add: p)
  from il have pos: "0 < shape a ! i" by simp
  let ?a1 = "a\<lparr>vals := (\<lambda>c. if c ! i = 0 then 0 else vals a c)\<rparr>"
  let ?k = "if l = 0 then shape a ! i - 1 else l - 1"
  let ?a2 = "?a1\<lparr>vals := (\<lambda>c. if c ! i = ?k then 0 else vals ?a1 c)\<rparr>"
  from nd pos have s1: "set_plane nd a i 0 0 = Inr ?a1"
    by (simp add: set_plane_result norm_index_zero)
  from nd pos il have s2: "set_plane nd ?a1 i (int l - 1) 0 = Inr ?a2"
    by (simp add: set_plane_result norm_index_last)
  from s1 s2 have step: "boundary_axes nd a (p # xs) = boundary_axes nd ?a2 xs"
    by (simp add: p bind_res_def)
  have "xs \<noteq> [] \<longrightarrow> nd \<le> length (shape ?a2)" using nd by simp
  moreover have "list_all (\<lambda>(i, l). max 1 l \<le> shape ?a2 ! i) xs" using rest by simp
  ultimately obtain a' where "boundary_axes nd ?a2 xs = Inr a'" "shape a' = shape ?a2"
    using Cons.IH[of ?a2] by blast
  with step show ?case by simp
qed

lemma boundary_axes_shape:
  "boundary_axes nd a xs = Inr a' \<Longrightarrow> shape a' = shape a"
proof (induction xs arbitrary: a)
  case Nil
  then show ?case by simp
next
  case (Cons p xs)
  obtain i l where p: "p = (i, l)" by (cases p)
  from Cons.prems have "bind_res (set_plane nd a i 0 0) (\<lambda>a1.
     bind_res (set_plane nd a1 i (int l - 1) 0) (\<lambda>a2. boundary_axes nd a2 xs)) = Inr a'"
    unfolding p by (simp only: boundary_axes.simps)
  then obtain a1 where a1: "set_plane nd a i 0 0 = Inr a1"
    and r1: "bind_res (set_plane nd a1 i (int l - 1) 0) (\<lambda>a2. boundary_axes nd a2 xs) = Inr a'"
    by (subst (asm) bind_res_Inr_iff) blast
  from r1 obtain a2 where a2: "set_plane nd a1 i (int l - 1) 0 = Inr a2"
    and rest: "boundary_axes nd a2 xs = Inr a'"
    by (subst (asm) bind_res_Inr_iff) blast
  from a1 have "shape a1 = shape a"
    by (auto simp: set_plane_def split: if_splits option.splits)
  moreover from a2 have "shape a2 = shape a1"
    by (auto simp: set_plane_def split: if_splits option.splits)
  ultimately show ?case using Cons.IH[OF rest] by simp
qed

lemma boundary_axes_misfit:
  assumes "\<not> ((xs \<noteq> [] \<longrightarrow> nd \<le> length (shape a)) \<and> list_all (\<lambda>(i, l). max 1 l \<le> shape a ! i) xs)"
  shows "boundary_axes nd a xs = Inl IndexError"
  using assms
proof (induction xs arbitrary: a)
  case Nil
  then show ?case by simp
next
  case (Cons p xs)
  obtain i l where p: "p = (i, l)" by (cases p)
  show ?case
  proof (cases "nd \<le> length (shape a) \<and> max 1 l \<le> shape a ! i")
    case False
    then consider "length (shape a) < nd" | "nd \<le> length (shape a)" "shape a ! i = 0"
      | "nd \<le> length (shape a)" "0 < shape a ! i" "\<not> max 1 l \<le> shape a ! i"
      by fastforce
    then show ?thesis
    proof cases
      case 1
      then show ?thesis by (simp add: p set_plane_result bind_res_def)
    next
      case 2
      then show ?thesis by (simp add: p set_plane_result norm_index_zero bind_res_def)
    next
      case 3
      then show ?thesis
        by (simp add: p set_plane_result norm_index_zero norm_index_last bind_res_def)
    qed
  next
    case True
    then have nd: "nd \<le> length (shape a)" and il: "max 1 l \<le> shape a ! i" by simp_all
    from il have pos: "0 < shape a ! i" by simp
    let ?a1 = "a\<lparr>vals := (\<lambda>c. if c ! i = 0 then 0 else vals a c)\<rparr>"
    let ?k = "if l = 0 then shape a ! i - 1 else l - 1"
    let ?a2 = "?a1\<lparr>vals := (\<lambda>c. if c ! i = ?k then 0 else vals ?a1 c)\<rparr>"
    from nd pos have s1: "set_plane nd a i 0 0 = Inr ?a1"
      by (simp add: set_plane_result norm_index_zero)
    from nd pos il have s2: "set_plane nd ?a1 i (int l - 1) 0 = Inr ?a2"
      by (simp add: set_plane_result norm_index_last)
    from s1 s2 have step: "boundary_axes nd a (p # xs) = boundary_axes nd ?a2 xs"
      by (simp add: p bind_res_def)
    from Cons.prems True have "\<not> list_all (\<lambda>(i, l). max 1 l \<le> shape a ! i) xs"
      by (simp add: p)
    then have "\<not> ((xs \<noteq> [] \<longrightarrow> nd \<le> length (shape ?a2)) \<and> list_all (\<lambda>(i, l). max 1 l \<le> shape ?a2 ! i) xs)"
      by simp
    from Cons.IH[OF this] step show ?thesis by simp
  qed
qed

lemma enumerate_fits:
  "list_all (\<lambda>(i, l). max 1 l \<le> shp ! i) (enumerate 0 grid) \<longleftrightarrow>
   list_all (\<lambda>i. max 1 (grid ! i) \<le> shp ! i) [0..<length grid]"
  by (auto simp: list_all_iff in_set_enumerate_eq)

text \<open>
  Claim C8, as amended: \<open>set_psi0_by_grid\<close> does not compare the shape of the
  supplied field with the grid shape. In the default Dirichlet mode it fails at
  once, with the index error of the boundary reset, exactly when the field has
  fewer axes than the grid or fewer points than the grid along some axis; every
  other field, also one larger than the grid, is accepted and stored with its
  own shape, neither truncated nor broadcast.
\<close>

theorem set_psi0_by_grid_checks_no_shape:
  assumes "bd_cond s = None" and "pbc s = False" and "ndim s = length (sol_shape s)"
  shows "if fits (sol_shape s) (shape psi0)
         then \<exists>s1. set_psi0_by_grid psi0 s = Inr s1 \<and> shape (sol_mesh s1) = shape psi0
         else set_psi0_by_grid psi0 s = Inl IndexError"
proof -
  let ?xs = "enumerate 0 (sol_shape s)"
  have ab: "apply_boundary (s\<lparr>sol_mesh := psi0\<rparr>) =
      bind_res (boundary_axes (length (sol_shape s)) psi0 ?xs) (\<lambda>a. Inr (s\<lparr>sol_mesh := a\<rparr>))"
    using assms by (simp add: apply_boundary_def)
  show ?thesis
  proof (cases "fits (sol_shape s) (shape psi0)")
    case True
    then have A: "?xs \<noteq> [] \<longrightarrow> length (sol_shape s) \<le> length (shape psi0)"
      and B: "list_all (\<lambda>i. max 1 (sol_shape s ! i) \<le> shape psi0 ! i) [0..<length (sol_shape s)]"
      unfolding fits_def by blast+
    from B have "list_all (\<lambda>(i, l). max 1 l \<le> shape psi0 ! i) ?xs"
      by (rule enumerate_fits[THEN iffD2])
    from boundary_axes_fits[OF A this] obtain a where
      "boundary_axes (length (sol_shape s)) psi0 ?xs = Inr a" "shape a = shape psi0"
      by blast
    with ab True show ?thesis
      by (simp add: set_psi0_by_grid_def initialize_def bind_res_def)
  next
    case False
    have "\<not> ((?xs \<noteq> [] \<longrightarrow> length (sol_shape s) \<le> length (shape psi0)) \<and>
                 list_all (\<lambda>(i, l). max 1 l \<le> shape psi0 ! i) ?xs)"
    proof
      assume c: "(?xs \<noteq> [] \<longrightarrow> length (sol_shape s) \<le> length (shape psi0)) \<and>
                 list_all (\<lambda>(i, l). max 1 l \<le> shape psi0 ! i) ?xs"
      then have "list_all (\<lambda>i. max 1 (sol_shape s ! i) \<le> shape psi0 ! i) [0..<length (sol_shape s)]"
        by (simp only: enumerate_fits)
      moreover from c have "length (sol_shape s) \<le> length (shape psi0)"
        by (cases "sol_shape s") simp_all
      ultimately have "fits (sol_shape s) (shape psi0)"
        unfolding fits_def by blast
      with False show False by simp
    qed
    from boundary_axes_misfit[OF this] ab False show ?thesis
      by (simp add: set_psi0_by_grid_def initialize_def bind_res_def)
  qed
qed

theorem set_psi0_by_grid_checks_no_shape_witness:
  "bd_cond (well_sys Free2D None) = None \<and> pbc (well_sys Free2D None) = False \<and>
   ndim (well_sys Free2D None) = length (sol_shape (well_sys Free2D None)) \<and>
   fits (sol_shape (well_sys Free2D None)) (shape (arr1 [1, 1, 1, 1])) \<and>
   shape (arr1 [1, 1, 1, 1]) \<noteq> sol_shape (well_sys Free2D None) \<and>
   (\<exists>s1. set_psi0_by_grid (arr1 [1, 1, 1, 1]) (well_sys Free2D None) = Inr s1 \<and>
      shape (sol_mesh s1) = shape (arr1 [1, 1, 1, 1]))"
proof -
  have h: "bd_cond (well_sys Free2D None) = None" "pbc (well_sys Free2D None) = False"
    "ndim (well_sys Free2D None) = length (sol_shape (well_sys Free2D None))"
    by (simp_all add: run_simps well_sys_def well_x_def two_steps_def)
  have f: "fits (sol_shape (well_sys Free2D None)) (shape (arr1 [1, 1, 1, 1]))"
    "shape (arr1 [1, 1, 1, 1]) \<noteq> sol_shape (well_sys Free2D None)"
    by (simp_all add: run_simps well_sys_def well_x_def two_steps_def fits_def)
  from set_psi0_by_grid_checks_no_shape[OF h, of "arr1 [1, 1, 1, 1]"] f h show ?thesis
    by simp
qed

text \<open>
  A field of four points on the grid of three points is accepted; the boundary
  reset clears its points \<open>0\<close> and \<open>2\<close>.
\<close>

theorem oversized_field_accepted:
  "(case set_psi0_by_grid (arr1 [1, 1, 1, 1]) (well_sys Free2D None) of
      Inl e \<Rightarrow> False
    | Inr s \<Rightarrow> sol_shape s = [3] \<and> shape (sol_mesh s) = [4] \<and>
        map (\<lambda>k. vals (sol_mesh s) [k]) [0, 1, 2, 3] = [0, 1, 0, 1])"
  by (simp add: run_simps well_sys_def well_x_def two_steps_def)

section \<open>The grid builder\<close>






section \<open>Periodic mode\<close>

lemma axis_step_pbcE:
  assumes "axis_step s i px kine = Inr (px', kine')" and "pbc s"
  shows "pbc_extrapolate px i = Inr px'"
proof -
  from assms obtain px1 where
    p: "pbc_extrapolate px i = Inr px1"
    and r: "bind_res (pbc_wrap px1 i (axis_term px1 i)) (\<lambda>term.
       let h = step (spat_dom s ! i)
       in if h = 0 then Inl NonFinite
          else Inr (px1, acc_interior kine i (scale (1 / (2 * h\<^sup>2)) term))) = Inr (px', kine')"
    unfolding axis_step_def by (subst (asm) bind_res_Inr_iff) auto
  from r obtain trm where
    "(let h = step (spat_dom s ! i)
       in if h = 0 then Inl NonFinite
          else Inr (px1, acc_interior kine i (scale (1 / (2 * h\<^sup>2)) trm))) = Inr (px', kine')"
    by (subst (asm) bind_res_Inr_iff) blast
  then have "px' = px1"
    by (auto simp: Let_def split: if_splits)
  with p show ?thesis by simp
qed

text \<open>
  Claim C10, as amended: in periodic mode the kinetic step of every axis, in
  every iteration of \<open>solve\<close>, first overwrites the value at the last grid point
  along that axis with \<open>value[0] + (1/3) * value[-2] - (1/3) * value[1]\<close> of the
  field as it was; on an axis of at least three points the field from which
  that axis's kinetic term is then formed satisfies the relation itself.
\<close>

theorem pbc_last_point_extrapolated:
  assumes "pbc s" and "axis_step s i px kine = Inr (px', kine')"
    and "i < length c" and "c ! i = shape px ! i - 1"
  shows "vals px' c = vals px (c[i := 0]) + (1/3) * vals px (c[i := shape px ! i - 2])
                        - (1/3) * vals px (c[i := 1]) \<and>
         (3 \<le> shape px ! i \<longrightarrow>
            vals px' c = vals px' (c[i := 0]) + (1/3) * vals px' (c[i := shape px ! i - 2])
                           - (1/3) * vals px' (c[i := 1]))"
proof -
  let ?l = "shape px ! i"
  from axis_step_pbcE[OF assms(2,1)] have l2: "2 \<le> ?l"
    and px': "px' = px\<lparr>vals := (\<lambda>c. if c ! i = ?l - 1
                                     then vals px (c[i := 0]) + (1/3) * vals px (c[i := ?l - 2])
                                          - (1/3) * vals px (c[i := 1])
                                     else vals px c)\<rparr>"
    by (auto simp: pbc_extrapolate_def Let_def split: if_splits)
  from assms(4) have A: "vals px' c = vals px (c[i := 0]) + (1/3) * vals px (c[i := ?l - 2])
                        - (1/3) * vals px (c[i := 1])"
    by (simp add: px')
  have B: "vals px' c = vals px' (c[i := 0]) + (1/3) * vals px' (c[i := ?l - 2])
                           - (1/3) * vals px' (c[i := 1])" if "3 \<le> ?l"
  proof -
    from that assms(3) have "c[i := 0] ! i \<noteq> ?l - 1" "c[i := ?l - 2] ! i \<noteq> ?l - 1" "c[i := 1] ! i \<noteq> ?l - 1"
      by simp_all
    then have "vals px' (c[i := 0]) = vals px (c[i := 0])"
      "vals px' (c[i := ?l - 2]) = vals px (c[i := ?l - 2])"
      "vals px' (c[i := 1]) = vals px (c[i := 1])"
      by (simp_all add: px')
    with A show ?thesis by simp
  qed
  from A B show ?thesis by blast
qed

theorem pbc_last_point_extrapolated_witness:
  "pbc ring_sys \<and>
   axis_step ring_sys 0 (arr1 [1, 3, - 3, 0]) (np_zeros [4]) = Inr (fst (projr ring_axis), snd (projr ring_axis)) \<and>
   0 < length [3::nat] \<and> [3] ! 0 = shape (arr1 [1, 3, - 3, 0]) ! 0 - 1 \<and>
   3 \<le> shape (arr1 [1, 3, - 3, 0]) ! 0 \<and>
   vals (fst (projr ring_axis)) [3] = - 1 \<and>
   vals (fst (projr ring_axis)) [3] =
     vals (fst (projr ring_axis)) ([3][0 := 0])
       + (1/3) * vals (fst (projr ring_axis)) ([3][0 := shape (arr1 [1, 3, - 3, 0]) ! 0 - 2])
       - (1/3) * vals (fst (projr ring_axis)) ([3][0 := 1])"
proof -
  have h1: "pbc ring_sys"
    by (simp add: ring_sys_def)
  have h2: "axis_step ring_sys 0 (arr1 [1, 3, - 3, 0]) (np_zeros [4]) =
      Inr (fst (projr ring_axis), snd (projr ring_axis))"
    by (simp add: ring_axis_def ring_sys_def run_simps unit_steps_def unit_x4_def
        pbc_extrapolate_def pbc_wrap_def iadd_bcast_def plane_def)
  have h3: "0 < length [3::nat]" and h4: "[3] ! 0 = shape (arr1 [1, 3, - 3, 0]) ! 0 - 1"
    and h5: "3 \<le> shape (arr1 [1, 3, - 3, 0]) ! 0"
    by (simp_all add: arr1_def)
  have v: "vals (fst (projr ring_axis)) [3] = - 1"
    by (simp add: ring_axis_def ring_sys_def run_simps unit_steps_def unit_x4_def
        pbc_extrapolate_def pbc_wrap_def iadd_bcast_def plane_def)
  from pbc_last_point_extrapolated[OF h1 h2 h3 h4] h1 h2 h3 h4 h5 v show ?thesis
    by blast
qed

text \<open>
  The update that follows does not keep the relation: after the only iteration
  of the periodic sample run the solution is \<open>[0.5, -0.5, 0.5, -0.5]\<close>, with
  \<open>-0.5\<close> at the last point where the formula gives \<open>5/6\<close>.
\<close>

theorem periodic_relation_lost_after_update:
  "(case ring_run of
      Inl e \<Rightarrow> False
    | Inr s \<Rightarrow> pbc s \<and> counter s = 0 \<and> logs s = [2] \<and>
        map (\<lambda>k. vals (sol_mesh s) [k]) [0, 1, 2, 3] = [1/2, - 1/2, 1/2, - 1/2] \<and>
        vals (sol_mesh s) [0] + (1/3) * vals (sol_mesh s) [2] - (1/3) * vals (sol_mesh s) [1] = 5/6)"
  by (simp add: ring_run_def ring_sys_def run_simps unit_steps_def unit_x4_def
      pbc_extrapolate_def pbc_wrap_def iadd_bcast_def plane_def)

end
